theory Spec2Isabelle
  imports Main
begin

section \<open>Privacy preserving country lookup over BGV ciphertexts\<close>

text \<open>
  A shallow embedding of \<^verbatim>\<open>BGV_world_country_db_lookup.cpp\<close>: the CSV reader
  \<^verbatim>\<open>read_csv\<close>, the conversion \<^verbatim>\<open>stringToAscii\<close>, the exponentiation
  \<^verbatim>\<open>pow\<close>, the search \<^verbatim>\<open>run\<close> and the setup part of \<^verbatim>\<open>main\<close>.
  Exceptions, failed assertions and out-of-range accesses are values of \<open>error\<close>;
  the homomorphic encryption library the program is linked against is not part of
  the program and is modelled by the contract the specification gives for it.
\<close>

subsection \<open>Errors\<close>

datatype error =
    RuntimeError string       \<comment> \<open>\<^verbatim>\<open>throw runtime_error(msg)\<close>\<close>
  | AssertionFailed           \<comment> \<open>\<^verbatim>\<open>always_assert(false)\<close>\<close>
  | IndexOutOfBounds          \<comment> \<open>\<^verbatim>\<open>operator[]\<close> on a vector that stores nothing at the index\<close>
  | ConfigurationError        \<comment> \<open>the configuration error of section 7 of the specification\<close>
  | OutOfRangeException       \<comment> \<open>\<^verbatim>\<open>std::out_of_range\<close> thrown by \<^verbatim>\<open>string::at\<close>\<close>

definition always_assert :: "bool \<Rightarrow> error + unit" where
  "always_assert c = (if c then Inr () else Inl AssertionFailed)"

definition newline :: char where
  "newline = CHR 0x0A"

subsection \<open>The ciphertext capability\<close>

text \<open>
  The context of the scheme, as far as the program reads it: \<^verbatim>\<open>he.slotCount()\<close>,
  the plaintext modulus it was initialised with, and the trait
  \<^verbatim>\<open>he.getTraits().isModularArithmetic()\<close>.
\<close>

record HeContext =
  slotCount :: nat
  modulusP :: int
  isModularArithmetic :: bool

text \<open>
  Modelled from the spec: the class \<^verbatim>\<open>CTile\<close> of the library. A ciphertext is the
  slot vector it decrypts to (section 4.1: every operation is exact modular arithmetic
  per slot) together with the encryption randomness that went into it, which
  decryption discards. The state of the randomness source is a counter; each fresh
  encryption consumes one state.
\<close>

record CTile =
  slots :: "int list"
  coins :: "nat list"

type_synonym prng = nat

definition emptyCTile :: CTile where
  \<comment> \<open>\<^verbatim>\<open>CTile y(he);\<close>\<close>
  "emptyCTile = \<lparr>slots = [], coins = []\<rparr>"

text \<open>
  Modelled from the spec: \<^verbatim>\<open>Encoder::encodeEncrypt\<close>, which "pads/truncates to slot
  count, encrypts"; the elements of a slot vector lie in \<open>[0, p)\<close>.
\<close>

definition encode :: "HeContext \<Rightarrow> int list \<Rightarrow> int list" where
  "encode he vals =
     map (\<lambda>v. v mod modulusP he)
       (take (slotCount he) (vals @ replicate (slotCount he - length vals) 0))"

definition encodeEncrypt :: "HeContext \<Rightarrow> prng \<Rightarrow> int list \<Rightarrow> CTile \<times> prng" where
  "encodeEncrypt he g vals = (\<lparr>slots = encode he vals, coins = [g]\<rparr>, Suc g)"

text \<open>
  Modelled from the spec: \<^verbatim>\<open>Encoder::decryptDecodeInt\<close>, the inverse of
  \<open>encodeEncrypt\<close>: the values of the slots, whatever the randomness.
\<close>

definition decryptDecodeInt :: "HeContext \<Rightarrow> CTile \<Rightarrow> int list" where
  "decryptDecodeInt he c = slots c"

text \<open>
  Modelled from the spec: the operations \<^verbatim>\<open>add\<close>, \<^verbatim>\<open>sub\<close>, \<^verbatim>\<open>multiply\<close>,
  \<^verbatim>\<open>negate\<close>, \<^verbatim>\<open>square\<close> (slot-wise arithmetic modulo \<open>p\<close>) and \<^verbatim>\<open>rotate\<close>
  (a cyclic shift by \<open>k\<close> positions, to the left when \<open>k\<close> is negative). The C++
  methods update the receiver; here they return its new value.
\<close>

definition add :: "HeContext \<Rightarrow> CTile \<Rightarrow> CTile \<Rightarrow> CTile" where
  "add he a b =
     \<lparr>slots = map2 (\<lambda>x y. (x + y) mod modulusP he) (slots a) (slots b),
      coins = coins a @ coins b\<rparr>"

definition sub_ct :: "HeContext \<Rightarrow> CTile \<Rightarrow> CTile \<Rightarrow> CTile" where
  "sub_ct he a b =
     \<lparr>slots = map2 (\<lambda>x y. (x - y) mod modulusP he) (slots a) (slots b),
      coins = coins a @ coins b\<rparr>"

definition multiply :: "HeContext \<Rightarrow> CTile \<Rightarrow> CTile \<Rightarrow> CTile" where
  "multiply he a b =
     \<lparr>slots = map2 (\<lambda>x y. (x * y) mod modulusP he) (slots a) (slots b),
      coins = coins a @ coins b\<rparr>"

definition negate :: "HeContext \<Rightarrow> CTile \<Rightarrow> CTile" where
  "negate he a = \<lparr>slots = map (\<lambda>x. (- x) mod modulusP he) (slots a), coins = coins a\<rparr>"

definition square :: "HeContext \<Rightarrow> CTile \<Rightarrow> CTile" where
  "square he a = \<lparr>slots = map (\<lambda>x. (x * x) mod modulusP he) (slots a), coins = coins a\<rparr>"

definition rotate_ct :: "HeContext \<Rightarrow> CTile \<Rightarrow> int \<Rightarrow> CTile" where
  "rotate_ct he a k =
     \<lparr>slots = rotate (nat ((- k) mod int (slotCount he))) (slots a), coins = coins a\<rparr>"

subsection \<open>\<^verbatim>\<open>pow\<close>\<close>

text \<open>
  The loop of \<^verbatim>\<open>pow\<close> on its variables \<^verbatim>\<open>yIsOne\<close>, \<^verbatim>\<open>y\<close>, \<^verbatim>\<open>ctile\<close> and
  \<^verbatim>\<open>degree\<close>. Inside the loop \<open>degree > 1\<close>, where the truncating \<^verbatim>\<open>/\<close> and
  \<^verbatim>\<open>%\<close> of C++ agree with \<open>div\<close> and \<open>mod\<close>; \<open>degree\<close> only decreases, so no
  \<^verbatim>\<open>int\<close> overflows.
\<close>

function pow_loop :: "HeContext \<Rightarrow> bool \<Rightarrow> CTile \<Rightarrow> CTile \<Rightarrow> int \<Rightarrow> bool \<times> CTile \<times> CTile" where
  "pow_loop he yIsOne y ctile degree =
     (if degree > 1 then
        (if degree mod 2 = 0 then
           pow_loop he yIsOne y (square he ctile) (degree div 2)
         else
           (if yIsOne then
              pow_loop he False ctile (square he ctile) ((degree - 1) div 2)
            else
              pow_loop he False (multiply he y ctile) (square he ctile) ((degree - 1) div 2)))
      else (yIsOne, y, ctile))"
  by pat_completeness auto
termination
  by (relation "measure (\<lambda>(he, yIsOne, y, ctile, degree). nat degree)") auto

declare pow_loop.simps [simp del]

text \<open>The statement after the loop, \<^verbatim>\<open>if (!yIsOne) ctile.multiply(y);\<close>, and \<^verbatim>\<open>pow\<close>.\<close>

definition pow_finish :: "HeContext \<Rightarrow> bool \<times> CTile \<times> CTile \<Rightarrow> CTile" where
  "pow_finish he r =
     (case r of (yIsOne, y, ctile) \<Rightarrow> if \<not> yIsOne then multiply he ctile y else ctile)"

definition pow :: "HeContext \<Rightarrow> CTile \<Rightarrow> int \<Rightarrow> CTile" where
  "pow he ctile degree = pow_finish he (pow_loop he True emptyCTile ctile degree)"

subsection \<open>\<^verbatim>\<open>read_csv\<close> and \<^verbatim>\<open>stringToAscii\<close>\<close>

text \<open>
  \<^verbatim>\<open>std::getline(stream, entry, delim)\<close> on the unread contents of a stream: it fails
  when nothing is left; otherwise it extracts the characters up to the next delimiter
  (or the end), and discards the delimiter. The result is the entry and what is left
  of the stream.
\<close>

definition getline :: "string \<Rightarrow> char \<Rightarrow> (string \<times> string) option" where
  "getline s delim =
     (if s = [] then None
      else Some (takeWhile (\<lambda>c. c \<noteq> delim) s, drop 1 (dropWhile (\<lambda>c. c \<noteq> delim) s)))"

lemma getline_shorter: "getline s delim = Some (entry, rest) \<Longrightarrow> length rest < length s"
proof (cases s)
  case Nil
  assume "getline s delim = Some (entry, rest)"
  with Nil show ?thesis by (simp add: getline_def)
next
  case (Cons c cs)
  assume a: "getline s delim = Some (entry, rest)"
  have "length (dropWhile (\<lambda>c. c \<noteq> delim) cs) \<le> length cs"
    by (rule length_dropWhile_le)
  with a Cons show ?thesis
    by (auto simp: getline_def split: if_splits)
qed

text \<open>The inner loop: \<^verbatim>\<open>while (getline(ss, entry, ',')) row.push_back(entry);\<close>\<close>

function split_row :: "string \<Rightarrow> string list" where
  "split_row ss =
     (case getline ss (CHR '','') of
        None \<Rightarrow> []
      | Some (entry, ss') \<Rightarrow> entry # split_row ss')"
  by pat_completeness auto
termination
  by (relation "measure length") (auto dest: getline_shorter)

declare split_row.simps [simp del]

definition size_t_of_int :: "int \<Rightarrow> int" where
  \<comment> \<open>the conversion of \<^verbatim>\<open>maxLen\<close> in \<^verbatim>\<open>row[0].size() > maxLen\<close>\<close>
  "size_t_of_int m = m mod 2 ^ 64"

text \<open>
  \<^verbatim>\<open>row[i]\<close> is \<^verbatim>\<open>operator[]\<close>, which does not check the index. Below the size
  of the vector it is the field; from the size on the behaviour is undefined, and what
  the read yields (a string, or the end of the program) is the parameter \<open>ub\<close>, a
  function of the storage of the vector and of the index. The vector \<^verbatim>\<open>row\<close> is
  declared before the loop and cleared at each line, so its storage keeps, beyond
  the fields of the current line, what the earlier lines have left there.
\<close>

type_synonym unchecked_read = "string list \<Rightarrow> nat \<Rightarrow> error + string"

definition row_at :: "unchecked_read \<Rightarrow> string list \<Rightarrow> string list \<Rightarrow> nat \<Rightarrow> error + string" where
  "row_at ub storage row i = (if i < length row then Inr (row ! i) else ub storage i)"

text \<open>
  The outer loop, one line of the file at a time. \<open>stored\<close> is the storage of
  \<^verbatim>\<open>row\<close> before \<^verbatim>\<open>row.clear()\<close>; \<open>row\<close> is the vector after the inner loop.
\<close>

function read_lines ::
  "unchecked_read \<Rightarrow> string \<Rightarrow> int \<Rightarrow> string list \<Rightarrow> (string \<times> string) list
     \<Rightarrow> error + (string \<times> string) list" where
  "read_lines ub data_file maxLen stored dataset =
     (case getline data_file newline of
        None \<Rightarrow> Inr dataset
      | Some (line, data_file') \<Rightarrow>
          (let row = split_row line;
               storage = row @ drop (length row) stored
           in case row_at ub storage row 0 of
                Inl e \<Rightarrow> Inl e
              | Inr row0 \<Rightarrow>
                  if int (length row0) > size_t_of_int maxLen then
                    Inl (RuntimeError (''Country name '' @ row0 @ '' too long''))
                  else
                    (case row_at ub storage row 1 of
                       Inl e \<Rightarrow> Inl e
                     | Inr row1 \<Rightarrow>
                         if int (length row1) > size_t_of_int maxLen then
                           Inl (RuntimeError (''Capital name '' @ row1 @ '' too long''))
                         else read_lines ub data_file' maxLen storage (dataset @ [(row0, row1)]))))"
  by pat_completeness auto
termination
  by (relation "measure (\<lambda>(ub, data_file, maxLen, stored, dataset). length data_file)")
     (auto dest: getline_shorter)

declare read_lines.simps [simp del]

text \<open>The file system is a map from file names to contents.\<close>

definition read_csv ::
  "unchecked_read \<Rightarrow> (string \<rightharpoonup> string) \<Rightarrow> string \<Rightarrow> int \<Rightarrow> error + (string \<times> string) list" where
  "read_csv ub fs filename maxLen =
     (case fs filename of
        None \<Rightarrow>
          Inl (RuntimeError
            (''Error: This example failed trying to open the data file: '' @ filename @
             [newline] @ ''           Please check this file exists and try again.''))
      | Some data_file \<Rightarrow> read_lines ub data_file maxLen [] [])"

text \<open>
  The unchecked read of the compiled program where the storage holds a field of an
  earlier line: the read yields that field. Where the storage holds nothing the outcome
  is not determined by the program; this instance ends the run there, and no property
  below rests on that choice.
\<close>

definition stale_read :: unchecked_read where
  "stale_read storage i = (if i < length storage then Inr (storage ! i) else Inl IndexOutOfBounds)"

text \<open>
  \<^verbatim>\<open>stringToAscii\<close> pushes each \<^verbatim>\<open>char\<close> as an \<^verbatim>\<open>int\<close>; \<^verbatim>\<open>char\<close> is signed on the
  platforms the library targets, and the 7-bit codes do not depend on that.
\<close>

definition int_of_char :: "char \<Rightarrow> int" where
  "int_of_char c = (if of_char c < (128::int) then of_char c else of_char c - 256)"

definition stringToAscii :: "string \<Rightarrow> int list" where
  "stringToAscii val = map int_of_char val"

subsection \<open>\<^verbatim>\<open>run\<close>\<close>

text \<open>The database is encrypted pair by pair, in order.\<close>

fun encrypt_db ::
  "HeContext \<Rightarrow> (string \<times> string) list \<Rightarrow> prng \<Rightarrow> (CTile \<times> CTile) list \<Rightarrow> (CTile \<times> CTile) list \<times> prng" where
  "encrypt_db he [] g encrypted_country_db = (encrypted_country_db, g)"
| "encrypt_db he (country_capital_pair # rest) g encrypted_country_db =
     (case encodeEncrypt he g (stringToAscii (fst country_capital_pair)) of
        (country, g') \<Rightarrow>
          (case encodeEncrypt he g' (stringToAscii (snd country_capital_pair)) of
             (capital, g'') \<Rightarrow>
               encrypt_db he rest g'' (encrypted_country_db @ [(country, capital)])))"

text \<open>
  The first half of the body of the search loop: the difference with the query, its
  power \<open>plaintextModulus - 1\<close>, the negation, and the addition of a fresh encryption of
  the all-ones vector.
\<close>

definition equality_mask :: "HeContext \<Rightarrow> int \<Rightarrow> CTile \<Rightarrow> CTile \<Rightarrow> prng \<Rightarrow> CTile \<times> prng" where
  "equality_mask he plaintextModulus key query g =
     (let mask_entry = sub_ct he key query;
          res = pow he mask_entry (plaintextModulus - 1);
          res = negate he res;
          valsOne = replicate (slotCount he) 1
      in case encodeEncrypt he g valsOne of (one, g') \<Rightarrow> (add he res one, g'))"

text \<open>
  \<^verbatim>\<open>for (int rot = 1; rot < he.slotCount(); rot *= 2)\<close>, from any value of \<open>rot\<close>.
  From a value that is not positive the loop does not end, so the result is an option.
  (For a slot count that fits an \<^verbatim>\<open>int\<close> and is a power of two, \<open>rot\<close> stays below
  \<open>2^31\<close>.)
\<close>

partial_function (option) rot_loop :: "HeContext \<Rightarrow> int \<Rightarrow> CTile \<Rightarrow> CTile option" where
  "rot_loop he rot res =
     (if rot < int (slotCount he) then
        rot_loop he (rot * 2) (multiply he res (rotate_ct he res (- rot)))
      else Some res)"

declare rot_loop.simps [code]

text \<open>The body of the search loop for one encrypted pair.\<close>

definition search_entry ::
  "HeContext \<Rightarrow> int \<Rightarrow> CTile \<Rightarrow> CTile \<times> CTile \<Rightarrow> prng \<Rightarrow> (CTile \<times> prng) option" where
  "search_entry he plaintextModulus query encrypted_pair g =
     (case equality_mask he plaintextModulus (fst encrypted_pair) query g of
        (res, g') \<Rightarrow>
          (case rot_loop he 1 res of
             None \<Rightarrow> None
           | Some res' \<Rightarrow> Some (multiply he res' (snd encrypted_pair), g')))"

fun search ::
  "HeContext \<Rightarrow> int \<Rightarrow> CTile \<Rightarrow> (CTile \<times> CTile) list \<Rightarrow> prng \<Rightarrow> CTile list \<Rightarrow> (CTile list \<times> prng) option" where
  "search he plaintextModulus query [] g masks = Some (masks, g)"
| "search he plaintextModulus query (encrypted_pair # rest) g masks =
     (case search_entry he plaintextModulus query encrypted_pair g of
        None \<Rightarrow> None
      | Some (res, g') \<Rightarrow> search he plaintextModulus query rest g' (masks @ [res]))"

definition not_found_message :: string where
  "not_found_message =
     ''Country name not in the database.'' @ [newline] @
     ''*** Please make sure to enter the name of an European Country'' @ [newline] @
     ''*** with the first letter in upper case.''"

text \<open>
  The aggregation \<^verbatim>\<open>CTile value = mask[0]; for (int i = 1; i < mask.size(); i++)
  value.add(mask[i]);\<close>, where \<^verbatim>\<open>mask[0]\<close> is not checked.
\<close>

definition aggregate :: "HeContext \<Rightarrow> CTile list \<Rightarrow> error + CTile" where
  "aggregate he masks =
     (case masks of
        [] \<Rightarrow> Inl IndexOutOfBounds
      | mask0 # mask' \<Rightarrow> Inr (foldl (add he) mask0 mask'))"

text \<open>
  The query part of \<^verbatim>\<open>run\<close>, from the encryption of the query to the aggregated
  ciphertext \<^verbatim>\<open>value\<close>, on the encrypted database. \<open>None\<close> stands for a search that
  does not return; \<open>g\<close> is the state of the randomness source.
\<close>

definition lookup_value ::
  "HeContext \<Rightarrow> int \<Rightarrow> (CTile \<times> CTile) list \<Rightarrow> prng \<Rightarrow> string \<Rightarrow> (error + CTile) option" where
  "lookup_value he plaintextModulus encrypted_country_db g query_string =
     (case encodeEncrypt he g (stringToAscii query_string) of
        (query, g2) \<Rightarrow>
          (case search he plaintextModulus query encrypted_country_db g2 [] of
             None \<Rightarrow> None
           | Some (masks, g3) \<Rightarrow> Some (aggregate he masks)))"

text \<open>
  The end of \<^verbatim>\<open>run\<close>: the decryption of \<^verbatim>\<open>value\<close>, the conversion of every slot
  to a \<^verbatim>\<open>char\<close>, and the test \<^verbatim>\<open>string_result.at(0) == 0x00\<close>. The result is the
  string printed after \<^verbatim>\<open>Query result:\<close>, or the error that ended the run.
\<close>

definition report :: "HeContext \<Rightarrow> CTile \<Rightarrow> error + string" where
  "report he value =
     (let res = decryptDecodeInt he value;
          string_result = map char_of res
      in if string_result = [] then Inl OutOfRangeException
         else if string_result ! 0 = CHR 0x00 then Inr not_found_message
         else Inr string_result)"

text \<open>The query part of \<^verbatim>\<open>run\<close> with its report: the lookup of a query string.\<close>

definition lookup ::
  "HeContext \<Rightarrow> int \<Rightarrow> (CTile \<times> CTile) list \<Rightarrow> prng \<Rightarrow> string \<Rightarrow> (error + string) option" where
  "lookup he plaintextModulus encrypted_country_db g query_string =
     (case lookup_value he plaintextModulus encrypted_country_db g query_string of
        None \<Rightarrow> None
      | Some (Inl e) \<Rightarrow> Some (Inl e)
      | Some (Inr value) \<Rightarrow> Some (report he value))"

text \<open>
  \<^verbatim>\<open>run\<close>: the assertion on the scheme, the reading and the encryption of the
  database, the choice of the query string (the argument \<^verbatim>\<open>countryName\<close>, or a line of
  the standard input \<open>cin\<close> when it is empty) and the lookup. \<open>fs\<close> is the file system
  and \<open>ub\<close> what an unchecked read beyond the size of \<^verbatim>\<open>row\<close> yields.
  The timers and the console output other than the result are left out.
\<close>

definition run ::
  "HeContext \<Rightarrow> unchecked_read \<Rightarrow> prng \<Rightarrow> (string \<rightharpoonup> string) \<Rightarrow> string \<Rightarrow> string \<Rightarrow> string
     \<Rightarrow> bool \<Rightarrow> int \<Rightarrow> (error + string) option" where
  "run he ub g fs cin db_filename countryName debug plaintextModulus =
     (if \<not> isModularArithmetic he then Some (Inl AssertionFailed)
      else case read_csv ub fs db_filename (int (slotCount he)) of
        Inl e \<Rightarrow> Some (Inl e)
      | Inr country_db \<Rightarrow>
          (case encrypt_db he country_db g [] of
             (encrypted_country_db, g1) \<Rightarrow>
               (let query_string =
                      (if countryName = [] then
                         (case getline cin newline of None \<Rightarrow> [] | Some (l, _) \<Rightarrow> l)
                       else countryName)
                in lookup he plaintextModulus encrypted_country_db g1 query_string)))"

subsection \<open>The setup in \<^verbatim>\<open>main\<close>\<close>

text \<open>
  \<^verbatim>\<open>HeConfigRequirement::insecure(32, 16)\<close> with the plaintext modulus assigned to
  it, and \<^verbatim>\<open>he.init(req)\<close>. The function \<^verbatim>\<open>init\<close> is the library's, so here it is a
  parameter.
\<close>

record HeConfigRequirement =
  numSlots :: nat
  multiplicationDepth :: nat
  req_plaintextModulus :: int

definition insecure :: "nat \<Rightarrow> nat \<Rightarrow> HeConfigRequirement" where
  \<comment> \<open>the plaintext modulus is assigned right after\<close>
  "insecure n d = \<lparr>numSlots = n, multiplicationDepth = d, req_plaintextModulus = 0\<rparr>"

definition main_setup :: "(HeConfigRequirement \<Rightarrow> error + HeContext) \<Rightarrow> int \<Rightarrow> error + HeContext" where
  "main_setup init plaintextModulus =
     (case always_assert (plaintextModulus \<ge> 127) of
        Inl e \<Rightarrow> Inl e
      | Inr _ \<Rightarrow> init ((insecure 32 16)\<lparr>req_plaintextModulus := plaintextModulus\<rparr>))"

text \<open>\<^verbatim>\<open>main\<close> after its arguments are parsed.\<close>

definition main ::
  "(HeConfigRequirement \<Rightarrow> error + HeContext) \<Rightarrow> unchecked_read \<Rightarrow> prng \<Rightarrow> (string \<rightharpoonup> string)
     \<Rightarrow> string \<Rightarrow> string \<Rightarrow> string \<Rightarrow> bool \<Rightarrow> int \<Rightarrow> (error + string) option" where
  "main init ub g fs cin db_filename countryName debug plaintextModulus =
     (case main_setup init plaintextModulus of
        Inl e \<Rightarrow> Some (Inl e)
      | Inr he \<Rightarrow> run he ub g fs cin db_filename countryName debug plaintextModulus)"

text \<open>Primes, by trial division.\<close>

definition is_prime :: "int \<Rightarrow> bool" where
  "is_prime p = (1 < p \<and> (\<forall>d\<in>{2..<p}. \<not> d dvd p))"

text \<open>
  Modelled from the spec: \<^verbatim>\<open>HeContext::init\<close>, which is not part of the program.
  Section 7 of the specification makes a plaintext modulus that is too small to
  represent the character codes, or not prime, a configuration error that is fatal at
  setup; section 3 puts "too small" below 128. (The slot count is never validated,
  section 9.) Otherwise the context has the slot count and the plaintext modulus of the
  requirement, with modular arithmetic.
\<close>

definition he_init :: "HeConfigRequirement \<Rightarrow> error + HeContext" where
  "he_init req =
     (if req_plaintextModulus req < 128 \<or> \<not> is_prime (req_plaintextModulus req) then
        Inl ConfigurationError
      else
        Inr \<lparr>slotCount = numSlots req, modulusP = req_plaintextModulus req,
             isModularArithmetic = True\<rparr>)"

subsection \<open>Notions used to state the properties\<close>

text \<open>
  A ciphertext of the context: as many slots as the context has, each in \<open>[0, p)\<close>.
\<close>

definition valid_ct :: "HeContext \<Rightarrow> CTile \<Rightarrow> bool" where
  "valid_ct he c =
     (length (slots c) = slotCount he \<and> (\<forall>v\<in>set (slots c). 0 \<le> v \<and> v < modulusP he))"

definition reduced :: "HeContext \<Rightarrow> CTile \<Rightarrow> bool" where
  "reduced he c = (\<forall>v\<in>set (slots c). v mod modulusP he = v)"

text \<open>
  The exponentiation as section 4.2 of the specification words it: an accumulator \<open>y\<close>
  that is "not yet assigned" at first, and a running base \<open>x\<close>. While the degree is
  above one: on an even degree, square \<open>x\<close> and halve the degree; on an odd one, fold
  \<open>x\<close> into \<open>y\<close> (the first time by copying), square \<open>x\<close> and set the degree to
  \<open>(degree - 1) / 2\<close>. At the end multiply \<open>y\<close> into \<open>x\<close> if it was ever assigned.
\<close>

function spec_pow_loop :: "HeContext \<Rightarrow> CTile option \<Rightarrow> CTile \<Rightarrow> int \<Rightarrow> CTile option \<times> CTile" where
  "spec_pow_loop he y x degree =
     (if degree > 1 then
        (if even degree then spec_pow_loop he y (square he x) (degree div 2)
         else spec_pow_loop he
                (case y of None \<Rightarrow> Some x | Some y' \<Rightarrow> Some (multiply he y' x))
                (square he x) ((degree - 1) div 2))
      else (y, x))"
  by pat_completeness auto
termination
  by (relation "measure (\<lambda>(he, y, x, degree). nat degree)") auto

declare spec_pow_loop.simps [simp del]

definition spec_pow :: "HeContext \<Rightarrow> CTile \<Rightarrow> int \<Rightarrow> CTile" where
  "spec_pow he c degree =
     (case spec_pow_loop he None c degree of
        (None, x) \<Rightarrow> x
      | (Some y, x) \<Rightarrow> multiply he x y)"

text \<open>
  The product, modulo \<open>P\<close>, of the \<open>m\<close> slots of \<open>v\<close> that start at slot \<open>i\<close>,
  wrapping around: what a slot holds in the rotate-and-multiply loop when \<open>rot = m\<close>.
\<close>

definition window :: "int \<Rightarrow> int list \<Rightarrow> nat \<Rightarrow> nat \<Rightarrow> int" where
  "window P v i m = (\<Prod>t<m. v ! ((i + t) mod length v)) mod P"

text \<open>
  The lines of a file, as the outer loop of \<^verbatim>\<open>read_csv\<close> reads them with
  \<^verbatim>\<open>getline(data_file, line)\<close>.
\<close>

function file_lines :: "string \<Rightarrow> string list" where
  "file_lines data_file =
     (case getline data_file newline of
        None \<Rightarrow> []
      | Some (line, data_file') \<Rightarrow> line # file_lines data_file')"
  by pat_completeness auto
termination
  by (relation "measure length") (auto dest: getline_shorter)

declare file_lines.simps [simp del]

text \<open>
  A line with a comma whose first comma is not its last character: from the first comma
  on there are at least two characters.
\<close>

definition comma_then_more :: "string \<Rightarrow> bool" where
  "comma_then_more l = (2 \<le> length (dropWhile (\<lambda>c. c \<noteq> CHR '','') l))"

text \<open>The first two fields of a row are within the bound.\<close>

definition row_ok :: "int \<Rightarrow> string list \<Rightarrow> bool" where
  "row_ok maxLen row = (int (length (row ! 0)) \<le> maxLen \<and> int (length (row ! 1)) \<le> maxLen)"

text \<open>The slot vectors that the pairs of an encrypted database decrypt to.\<close>

definition slot_pairs :: "(CTile \<times> CTile) list \<Rightarrow> (int list \<times> int list) list" where
  "slot_pairs db = map (\<lambda>(k, c). (slots k, slots c)) db"

text \<open>
  Text as the program means it: 7-bit character codes, none of them the code 0 that
  pads a slot vector.
\<close>

definition ascii_text :: "string \<Rightarrow> bool" where
  "ascii_text s = (\<forall>c\<in>set s. 0 < (of_char c :: int) \<and> (of_char c :: int) < 128)"

text \<open>The slot vector of a sum of two ciphertexts.\<close>

definition add_slots :: "int \<Rightarrow> int list \<Rightarrow> int list \<Rightarrow> int list" where
  "add_slots P a b = map2 (\<lambda>x y. (x + y) mod P) a b"

text \<open>
  The database of the end-to-end scenarios of the specification, as a file and as the
  dataset read from it, and a file whose only record has an empty value.
\<close>

definition countries :: "(string \<times> string) list" where
  "countries = [(''Norway'', ''Oslo''), (''Sweden'', ''Stockholm'')]"

definition countries_csv :: string where
  "countries_csv = ''Norway,Oslo'' @ [newline] @ ''Sweden,Stockholm'' @ [newline]"

definition empty_value_csv :: string where
  "empty_value_csv = ''Utopia,,none'' @ [newline]"









text \<open>
  A key/value file as text. A record is a key, a value and the rest of its line; the
  key and the value have no comma, nothing has a line break, the rest is empty or
  starts with a comma, and the value and the rest are not both empty. The text of a
  file is the lines of its records, each ended by a line break, the last one possibly
  not.
\<close>

definition csv_line :: "string \<times> string \<times> string \<Rightarrow> string" where
  "csv_line r = (case r of (k, v, tail) \<Rightarrow> k @ '','' @ v @ tail)"

definition csv_record :: "string \<times> string \<times> string \<Rightarrow> bool" where
  "csv_record r =
     (case r of (k, v, tail) \<Rightarrow>
        CHR '','' \<notin> set k \<and> newline \<notin> set k \<and>
        CHR '','' \<notin> set v \<and> newline \<notin> set v \<and>
        newline \<notin> set tail \<and> (tail = [] \<or> hd tail = CHR '','') \<and>
        (v \<noteq> [] \<or> tail \<noteq> []))"

fun csv_text :: "bool \<Rightarrow> (string \<times> string \<times> string) list \<Rightarrow> string" where
  "csv_text nl [] = []"
| "csv_text nl [r] = csv_line r @ (if nl then [newline] else [])"
| "csv_text nl (r # r' # rs) = csv_line r @ [newline] @ csv_text nl (r' # rs)"

text \<open>
  Files whose second line has a key and a comma but no value, and the records of the
  database of the scenarios.
\<close>

definition stale_value_csv :: string where
  "stale_value_csv = ''a,b'' @ [newline] @ ''c,'' @ [newline]"

definition stale_capital_csv :: string where
  "stale_capital_csv = ''Norway,Oslo'' @ [newline] @ ''a,'' @ [newline]"

definition countries_records :: "(string \<times> string \<times> string) list" where
  "countries_records = [(''Norway'', ''Oslo'', []), (''Sweden'', ''Stockholm'', [])]"

text \<open>Contexts for the examples: four slots, and the program's 32 slots, modulo 257.\<close>

definition he4 :: HeContext where
  "he4 = \<lparr>slotCount = 4, modulusP = 257, isModularArithmetic = True\<rparr>"

definition he32 :: HeContext where
  "he32 = \<lparr>slotCount = 32, modulusP = 257, isModularArithmetic = True\<rparr>"

text \<open>
  A database whose only key fills the 32 slots, and a query of 33 characters that
  starts with that key.
\<close>

definition long_key_csv :: string where
  "long_key_csv = ''aaaaaaaaaaaaaaaaaaaaaaaaaaaaaaaa,xy'' @ [newline]"

definition long_query :: string where
  "long_query = ''aaaaaaaaaaaaaaaaaaaaaaaaaaaaaaaab''"

section \<open>The exponentiation\<close>

lemma sq_pow_mod: "(x * x mod P) ^ k mod P = x ^ (2 * k) mod (P::int)"
proof -
  have "(x * x mod P) ^ k mod P = (x * x) ^ k mod P" by (rule power_mod)
  also have "(x * x) ^ k = x ^ (2 * k)" by (simp add: power_mult power2_eq_square)
  finally show ?thesis .
qed

lemma acc_sq_pow_mod: "(yv * (x * x mod P) ^ k) mod P = (yv * x ^ (2 * k)) mod (P::int)"
  by (metis sq_pow_mod mod_mult_right_eq)

lemma acc_fold_sq_pow_mod:
  "((yv * x mod P) * (x * x mod P) ^ k) mod P = (yv * x ^ (2 * k + 1)) mod (P::int)"
proof -
  have "((yv * x mod P) * (x * x mod P) ^ k) mod P = ((yv * x) * (x * x mod P) ^ k) mod P"
    by (rule mod_mult_left_eq)
  also have "\<dots> = ((yv * x) * x ^ (2 * k)) mod P" by (rule acc_sq_pow_mod)
  also have "(yv * x) * x ^ (2 * k) = yv * x ^ (2 * k + 1)" by simp
  finally show ?thesis .
qed

lemma even_degree: 
  fixes d :: int
  assumes "1 < d" "d mod 2 = 0" shows "nat d = 2 * nat (d div 2)"
proof -
  have "d = 2 * (d div 2)" using assms(2) by presburger
  then have "nat d = nat (2 * (d div 2))" by simp
  also have "\<dots> = 2 * nat (d div 2)" by (simp add: nat_mult_distrib)
  finally show ?thesis .
qed

lemma odd_degree:
  fixes d :: int
  assumes "1 < d" "d mod 2 \<noteq> 0" shows "nat d = 2 * nat ((d - 1) div 2) + 1"
proof -
  have e: "d = 2 * ((d - 1) div 2) + 1" using assms(2) by presburger
  have nn: "0 \<le> (d - 1) div 2" using assms(1) by simp
  have "nat d = nat (2 * ((d - 1) div 2) + 1)" using e by simp
  also have "\<dots> = 2 * nat ((d - 1) div 2) + 1" using nn by (simp add: nat_add_distrib nat_mult_distrib)
  finally show ?thesis .
qed

lemma reduced_square: "reduced he (square he c)"
  by (simp add: reduced_def square_def)

lemma pow_loop_slots:
  "1 \<le> degree \<Longrightarrow> reduced he ctile \<Longrightarrow>
   slots (pow_finish he (pow_loop he yIsOne y ctile degree)) =
     (if yIsOne then map (\<lambda>v. v ^ nat degree mod modulusP he) (slots ctile)
      else map2 (\<lambda>c yv. (yv * c ^ nat degree) mod modulusP he) (slots ctile) (slots y))"
proof (induction he yIsOne y ctile degree rule: pow_loop.induct)
  case (1 he yIsOne y ctile degree)
  let ?P = "modulusP he"
  show ?case
  proof (cases "degree > 1")
    case False
    with "1.prems" have d: "degree = 1" by simp
    have last: "pow_loop he yIsOne y ctile degree = (yIsOne, y, ctile)"
      using d by (subst pow_loop.simps) simp
    show ?thesis
    proof (cases yIsOne)
      case True
      have "map (\<lambda>v. v ^ nat degree mod ?P) (slots ctile) = slots ctile"
        using "1.prems"(2) d by (simp add: reduced_def map_idI)
      then show ?thesis using True last by (simp add: pow_finish_def)
    next
      case False
      then show ?thesis using last d
        by (simp add: pow_finish_def multiply_def mult.commute)
    qed
  next
    case gt: True
    show ?thesis
    proof (cases "degree mod 2 = 0")
      case even: True
      have step: "pow_loop he yIsOne y ctile degree =
                  pow_loop he yIsOne y (square he ctile) (degree div 2)"
        using gt even by (subst pow_loop.simps) simp
      have n: "nat degree = 2 * nat (degree div 2)" using gt even by (rule even_degree)
      have ih: "slots (pow_finish he (pow_loop he yIsOne y (square he ctile) (degree div 2))) =
        (if yIsOne then map (\<lambda>v. v ^ nat (degree div 2) mod ?P) (slots (square he ctile))
         else map2 (\<lambda>c yv. (yv * c ^ nat (degree div 2)) mod ?P) (slots (square he ctile)) (slots y))"
        using gt even by (intro "1.IH"(1)) (auto simp: reduced_square)
      show ?thesis
      proof (cases yIsOne)
        case True
        then show ?thesis unfolding step ih n
          by (simp add: square_def sq_pow_mod o_def)
      next
        case False
        have "map2 (\<lambda>c yv. (yv * c ^ nat (degree div 2)) mod ?P) (slots (square he ctile)) (slots y)
            = map2 (\<lambda>c yv. (yv * c ^ (2 * nat (degree div 2))) mod ?P) (slots ctile) (slots y)"
          by (rule nth_equalityI) (simp_all add: square_def acc_sq_pow_mod)
        then show ?thesis unfolding step ih n using False by simp
      qed
    next
      case odd: False
      have n: "nat degree = 2 * nat ((degree - 1) div 2) + 1" using gt odd by (rule odd_degree)
      have d1: "1 \<le> (degree - 1) div 2" using gt odd by presburger
      show ?thesis
      proof (cases yIsOne)
        case True
        have step: "pow_loop he yIsOne y ctile degree =
                    pow_loop he False ctile (square he ctile) ((degree - 1) div 2)"
          using gt odd True by (subst pow_loop.simps) simp
        have ih: "slots (pow_finish he (pow_loop he False ctile (square he ctile) ((degree - 1) div 2))) =
           map2 (\<lambda>c yv. (yv * c ^ nat ((degree - 1) div 2)) mod ?P) (slots (square he ctile)) (slots ctile)"
          using "1.IH"(2) [OF gt odd True d1 reduced_square] by simp
        have "map2 (\<lambda>c yv. (yv * c ^ nat ((degree - 1) div 2)) mod ?P) (slots (square he ctile)) (slots ctile)
            = map (\<lambda>v. v ^ (2 * nat ((degree - 1) div 2) + 1) mod ?P) (slots ctile)"
          by (rule nth_equalityI) (simp_all add: square_def acc_sq_pow_mod)
        then show ?thesis unfolding step ih n using True by simp
      next
        case False
        have step: "pow_loop he yIsOne y ctile degree =
                    pow_loop he False (multiply he y ctile) (square he ctile) ((degree - 1) div 2)"
          using gt odd False by (subst pow_loop.simps) simp
        have ih: "slots (pow_finish he (pow_loop he False (multiply he y ctile) (square he ctile) ((degree - 1) div 2))) =
           map2 (\<lambda>c yv. (yv * c ^ nat ((degree - 1) div 2)) mod ?P) (slots (square he ctile)) (slots (multiply he y ctile))"
          using "1.IH"(3) [OF gt odd False d1 reduced_square] by simp
        have "map2 (\<lambda>c yv. (yv * c ^ nat ((degree - 1) div 2)) mod ?P) (slots (square he ctile)) (slots (multiply he y ctile))
            = map2 (\<lambda>c yv. (yv * c ^ (2 * nat ((degree - 1) div 2) + 1)) mod ?P) (slots ctile) (slots y)"
          by (rule nth_equalityI) (simp_all add: square_def multiply_def acc_fold_sq_pow_mod)
        then show ?thesis unfolding step ih n using False by simp
      qed
    qed
  qed
qed

lemma pow_slots:
  assumes "1 \<le> degree" "reduced he c"
  shows "slots (pow he c degree) = map (\<lambda>v. v ^ nat degree mod modulusP he) (slots c)"
  using pow_loop_slots [OF assms, of True emptyCTile]
  by (simp add: pow_def)


lemma pow_loop_refines:
  "spec_pow_loop he (if yIsOne then None else Some y) ctile degree =
     (case pow_loop he yIsOne y ctile degree of
        (yIsOne', y', ctile') \<Rightarrow> (if yIsOne' then None else Some y', ctile'))"
proof (induction he yIsOne y ctile degree rule: pow_loop.induct)
  case (1 he yIsOne y ctile degree)
  show ?case
  proof (cases "degree > 1")
    case False
    then show ?thesis by (subst spec_pow_loop.simps, subst pow_loop.simps) simp
  next
    case gt: True
    show ?thesis
    proof (cases "degree mod 2 = 0")
      case True
      then have ev: "even degree" by presburger
      show ?thesis
        using "1.IH"(1) [OF gt True] gt True ev
        by (subst spec_pow_loop.simps, subst pow_loop.simps) simp
    next
      case False
      then have od: "odd degree" by presburger
      show ?thesis
      proof (cases yIsOne)
        case True
        show ?thesis
          using "1.IH"(2) [OF gt False True] gt False od True
          by (subst spec_pow_loop.simps, subst pow_loop.simps) simp
      next
        case no: False
        show ?thesis
          using "1.IH"(3) [OF gt False no] gt False od no
          by (subst spec_pow_loop.simps, subst pow_loop.simps) simp
      qed
    qed
  qed
qed

lemma pow_refines: "pow he c degree = spec_pow he c degree"
  using pow_loop_refines [of he True emptyCTile c degree]
  by (simp add: pow_def pow_finish_def spec_pow_def split: prod.splits if_splits)


lemma valid_ct_reduced: "valid_ct he c \<Longrightarrow> reduced he c"
  by (simp add: valid_ct_def reduced_def)

text \<open>
  Claim C3. For every degree of at least one and every ciphertext \<open>c\<close> of the context,
  \<open>pow\<close> returns (its loop is a total function, by the termination proof of
  \<open>pow_loop\<close>) and the ciphertext it leaves decodes, slot by slot, to the original value
  to the power \<open>degree\<close> modulo \<open>p\<close>; it is the ciphertext that the square-and-multiply
  recurrence of the specification computes.
\<close>

theorem C3_pow_square_and_multiply:
  assumes "1 \<le> degree" and "valid_ct he c"
  shows "pow he c degree = spec_pow he c degree \<and>
         decryptDecodeInt he (pow he c degree) =
           map (\<lambda>v. v ^ nat degree mod modulusP he) (decryptDecodeInt he c)"
  using pow_slots [OF assms(1) valid_ct_reduced [OF assms(2)]] pow_refines [of he c degree]
  by (simp add: decryptDecodeInt_def)

theorem C3_pow_witness:
  "(1::int) \<le> 5 \<and> valid_ct he4 \<lparr>slots = [0, 1, 2, 3], coins = [7]\<rparr> \<and>
   decryptDecodeInt he4 (pow he4 \<lparr>slots = [0, 1, 2, 3], coins = [7]\<rparr> 5) = [0, 1, 32, 243]"
proof -
  have d: "(1::int) \<le> 5" by simp
  have v: "valid_ct he4 \<lparr>slots = [0, 1, 2, 3], coins = [7]\<rparr>"
    by (simp add: valid_ct_def he4_def)
  have "decryptDecodeInt he4 (pow he4 \<lparr>slots = [0, 1, 2, 3], coins = [7]\<rparr> 5) =
        map (\<lambda>v. v ^ nat 5 mod modulusP he4)
          (decryptDecodeInt he4 \<lparr>slots = [0, 1, 2, 3], coins = [7]\<rparr>)"
    using C3_pow_square_and_multiply [OF d v] by (rule conjunct2)
  also have "\<dots> = [0, 1, 32, 243]"
    by (simp add: decryptDecodeInt_def he4_def)
  finally show ?thesis using d v by simp
qed

section \<open>Fermat's little theorem\<close>

lemma is_prime_coprime:
  assumes "is_prime p" "0 < k" "k < p"
  shows "coprime p k"
proof (rule coprimeI)
  fix c assume c: "c dvd p" "c dvd k"
  have p1: "1 < p" using assms by (simp add: is_prime_def)
  define d where "d = \<bar>c\<bar>"
  have d: "d dvd p" "d dvd k" using c by (simp_all add: d_def)
  have "d \<noteq> 0" using d p1 by auto
  then have dpos: "0 < d" by (simp add: d_def)
  have "d \<le> k" using d(2) assms(2) by (simp add: zdvd_imp_le)
  then have "d < p" using assms(3) by simp
  have "d = 1"
  proof (rule ccontr)
    assume "d \<noteq> 1"
    then have "d \<in> {2..<p}" using dpos \<open>d < p\<close> by simp
    then show False using assms(1) d(1) by (auto simp: is_prime_def)
  qed
  then show "is_unit c" by (simp add: d_def)
qed

lemma prime_dvd_binomial:
  assumes "is_prime p" "0 < k" "k < nat p"
  shows "p dvd int (nat p choose k)"
proof -
  have p1: "1 < p" using assms by (simp add: is_prime_def)
  have "k * (nat p choose k) = nat p * ((nat p - 1) choose (k - 1))"
    using assms(2) by (rule times_binomial_minus1_eq)
  then have "int k * int (nat p choose k) = int (nat p) * int ((nat p - 1) choose (k - 1))"
    by (metis of_nat_mult)
  then have "p dvd int k * int (nat p choose k)" using p1 by simp
  moreover have "coprime p (int k)"
    using assms by (intro is_prime_coprime) auto
  ultimately show ?thesis by (simp add: coprime_dvd_mult_right_iff)
qed

lemma freshman_dream:
  assumes "is_prime p"
  shows "p dvd (x + 1) ^ nat p - x ^ nat p - 1"
proof -
  define n where "n = nat p"
  have n2: "2 \<le> n" using assms unfolding is_prime_def n_def by linarith
  have "(x + 1) ^ n = (\<Sum>k\<le>n. int (n choose k) * x ^ k * 1 ^ (n - k))"
    by (simp only: binomial_ring of_nat_id)
  also have "\<dots> = (\<Sum>k\<le>n. int (n choose k) * x ^ k)" by simp
  also have "{..n} = insert 0 (insert n {1..<n})" using n2 by auto
  also have "(\<Sum>k\<in>insert 0 (insert n {1..<n}). int (n choose k) * x ^ k)
      = 1 + x ^ n + (\<Sum>k\<in>{1..<n}. int (n choose k) * x ^ k)"
    using n2 by simp
  finally have "(x + 1) ^ n - x ^ n - 1 = (\<Sum>k\<in>{1..<n}. int (n choose k) * x ^ k)"
    by simp
  moreover have "p dvd (\<Sum>k\<in>{1..<n}. int (n choose k) * x ^ k)"
  proof (rule dvd_sum)
    fix k assume "k \<in> {1..<n}"
    then have "p dvd int (n choose k)"
      unfolding n_def using assms by (intro prime_dvd_binomial) auto
    then show "p dvd int (n choose k) * x ^ k" by simp
  qed
  ultimately show ?thesis by (simp add: n_def)
qed

lemma fermat_nat: 
  assumes "is_prime p"
  shows "p dvd int m ^ nat p - int m"
proof (induction m)
  case 0
  have "0 < nat p" using assms by (simp add: is_prime_def)
  then show ?case by (simp add: zero_power)
next
  case (Suc m)
  have "int (Suc m) ^ nat p - int (Suc m)
      = ((int m + 1) ^ nat p - int m ^ nat p - 1) + (int m ^ nat p - int m)"
    by (simp add: add.commute)
  then show ?case using freshman_dream [OF assms, of "int m"] Suc
    by (metis dvd_add)
qed

lemma fermat_little:
  assumes "is_prime p" "0 < x" "x < p"
  shows "x ^ nat (p - 1) mod p = 1"
proof -
  have p1: "1 < p" using assms by (simp add: is_prime_def)
  have "p dvd int (nat x) ^ nat p - int (nat x)" using assms(1) by (rule fermat_nat)
  then have "p dvd x ^ nat p - x" using assms(2) by simp
  moreover have "nat p = Suc (nat (p - 1))" using p1 by simp
  ultimately have "p dvd x * (x ^ nat (p - 1) - 1)"
    by (simp add: algebra_simps)
  moreover have "coprime p x" using assms by (rule is_prime_coprime)
  ultimately have "p dvd x ^ nat (p - 1) - 1"
    by (simp add: coprime_dvd_mult_right_iff)
  then have "(x ^ nat (p - 1) - 1) mod p = 0" by simp
  then have "x ^ nat (p - 1) mod p = 1 mod p"
    by (metis mod_eq_dvd_iff \<open>p dvd x ^ nat (p - 1) - 1\<close>)
  then show ?thesis using p1 by simp
qed


section \<open>The equality mask\<close>

lemma fermat_indicator:
  assumes "is_prime P" "0 \<le> x" "x < P" "0 \<le> y" "y < P"
  shows "(- (((x - y) mod P) ^ nat (P - 1) mod P) mod P + 1 mod P) mod P = (if x = y then 1 else 0)"
proof -
  have P1: "1 < P" using assms(1) by (simp add: is_prime_def)
  then have e: "0 < nat (P - 1)" by simp
  show ?thesis
  proof (cases "x = y")
    case True
    then show ?thesis using P1 e by (simp add: zero_power)
  next
    case False
    define d where "d = (x - y) mod P"
    have "\<not> P dvd (x - y)"
    proof
      assume "P dvd (x - y)"
      then obtain k where k: "x - y = P * k" by (auto simp: dvd_def)
      have "\<bar>x - y\<bar> < P" using assms by linarith
      then have "\<bar>P * k\<bar> < P" using k by simp
      then have "\<bar>k\<bar> < 1" using P1 by (simp add: abs_mult)
      then have "k = 0" by simp
      then show False using k False by simp
    qed
    then have "d \<noteq> 0" by (simp add: d_def dvd_eq_mod_eq_0)
    moreover have "0 \<le> d" "d < P" using P1 by (simp_all add: d_def)
    ultimately have "d ^ nat (P - 1) mod P = 1"
      using assms(1) by (intro fermat_little) auto
    then have "(- (((x - y) mod P) ^ nat (P - 1) mod P) mod P + 1 mod P) mod P
        = (- 1 mod P + 1 mod P) mod P" by (simp add: d_def)
    also have "\<dots> = (- 1 + 1) mod P" by (rule mod_add_eq)
    finally show ?thesis using False by simp
  qed
qed

lemma encode_ones: "encode he (replicate (slotCount he) 1) = replicate (slotCount he) (1 mod modulusP he)"
  by (simp add: encode_def)

lemma reduced_sub_ct: "reduced he (sub_ct he a b)"
  by (auto simp: reduced_def sub_ct_def dest!: set_zip_leftD set_zip_rightD in_set_zipE)

lemma equality_mask_slots:
  assumes "is_prime (modulusP he)" "valid_ct he a" "valid_ct he b"
  shows "slots (fst (equality_mask he (modulusP he) a b g)) =
           map2 (\<lambda>x y. if x = y then 1 else 0) (slots a) (slots b)"
proof -
  let ?P = "modulusP he"
  have P1: "1 < ?P" using assms(1) by (simp add: is_prime_def)
  have la: "length (slots a) = slotCount he" and lb: "length (slots b) = slotCount he"
    using assms by (simp_all add: valid_ct_def)
  have ra: "\<And>i. i < slotCount he \<Longrightarrow> 0 \<le> slots a ! i \<and> slots a ! i < ?P"
    using assms(2) la by (simp add: valid_ct_def)
  have rb: "\<And>i. i < slotCount he \<Longrightarrow> 0 \<le> slots b ! i \<and> slots b ! i < ?P"
    using assms(3) lb by (simp add: valid_ct_def)
  have pw: "slots (pow he (sub_ct he a b) (?P - 1)) =
            map (\<lambda>v. v ^ nat (?P - 1) mod ?P) (slots (sub_ct he a b))"
    using P1 by (intro pow_slots reduced_sub_ct) simp
  have "slots (fst (equality_mask he ?P a b g)) =
        map2 (\<lambda>x y. (x + y) mod ?P)
          (map (\<lambda>x. (- x) mod ?P) (map (\<lambda>v. v ^ nat (?P - 1) mod ?P) (slots (sub_ct he a b))))
          (replicate (slotCount he) (1 mod ?P))"
    by (simp add: equality_mask_def Let_def encodeEncrypt_def add_def negate_def pw encode_ones)
  also have "\<dots> = map2 (\<lambda>x y. if x = y then 1 else 0) (slots a) (slots b)"
  proof (rule nth_equalityI)
    show "length (map2 (\<lambda>x y. (x + y) mod ?P)
          (map (\<lambda>x. (- x) mod ?P) (map (\<lambda>v. v ^ nat (?P - 1) mod ?P) (slots (sub_ct he a b))))
          (replicate (slotCount he) (1 mod ?P))) = length (map2 (\<lambda>x y. if x = y then 1 else (0::int)) (slots a) (slots b))"
      by (simp add: sub_ct_def la lb)
  next
    fix i assume "i < length (map2 (\<lambda>x y. (x + y) mod ?P)
          (map (\<lambda>x. (- x) mod ?P) (map (\<lambda>v. v ^ nat (?P - 1) mod ?P) (slots (sub_ct he a b))))
          (replicate (slotCount he) (1 mod ?P)))"
    then have i: "i < slotCount he" by (simp add: sub_ct_def la lb)
    show "map2 (\<lambda>x y. (x + y) mod ?P)
          (map (\<lambda>x. (- x) mod ?P) (map (\<lambda>v. v ^ nat (?P - 1) mod ?P) (slots (sub_ct he a b))))
          (replicate (slotCount he) (1 mod ?P)) ! i = map2 (\<lambda>x y. if x = y then 1 else 0) (slots a) (slots b) ! i"
      using i ra [OF i] rb [OF i] fermat_indicator [OF assms(1), of "slots a ! i" "slots b ! i"]
      by (simp add: sub_ct_def la lb)
  qed
  finally show ?thesis .
qed

lemma indicator_all_ones:
  assumes "length xs = n" "length ys = n"
  shows "map2 (\<lambda>x y. if x = y then 1 else (0::int)) xs ys = replicate n 1 \<longleftrightarrow> xs = ys"
proof
  assume eq: "map2 (\<lambda>x y. if x = y then 1 else (0::int)) xs ys = replicate n 1"
  show "xs = ys"
  proof (rule nth_equalityI)
    show "length xs = length ys" using assms by simp
    fix i assume i: "i < length xs"
    then have "map2 (\<lambda>x y. if x = y then 1 else (0::int)) xs ys ! i = replicate n 1 ! i"
      using eq by simp
    then show "xs ! i = ys ! i" using i assms by (simp split: if_splits)
  qed
next
  assume "xs = ys"
  then show "map2 (\<lambda>x y. if x = y then 1 else (0::int)) xs ys = replicate n 1"
    using assms by (intro nth_equalityI) simp_all
qed

text \<open>
  Claim C2. For a prime plaintext modulus and two ciphertexts \<open>a\<close> and \<open>b\<close> of the context
  (all slots in \<open>[0, p)\<close>), the equality mask of the search loop (subtract, raise to the
  power \<open>p - 1\<close>, negate, add the all-ones vector) decodes to 1 in every slot where \<open>a\<close>
  and \<open>b\<close> agree and to 0 in every other slot; it decodes to the all-ones vector exactly
  when \<open>a\<close> and \<open>b\<close> decode to the same vector.
\<close>

theorem C2_equality_mask:
  assumes "is_prime (modulusP he)" and "valid_ct he a" and "valid_ct he b"
  shows "decryptDecodeInt he (fst (equality_mask he (modulusP he) a b g)) =
           map2 (\<lambda>x y. if x = y then 1 else 0) (decryptDecodeInt he a) (decryptDecodeInt he b) \<and>
         (decryptDecodeInt he (fst (equality_mask he (modulusP he) a b g)) =
            replicate (slotCount he) 1 \<longleftrightarrow>
          decryptDecodeInt he a = decryptDecodeInt he b)"
proof -
  have la: "length (slots a) = slotCount he" and lb: "length (slots b) = slotCount he"
    using assms by (simp_all add: valid_ct_def)
  show ?thesis
    unfolding decryptDecodeInt_def equality_mask_slots [OF assms]
    using indicator_all_ones [OF la lb] by simp
qed

lemma is_prime_257: "is_prime 257"
  by code_simp

theorem C2_equality_mask_witness:
  "is_prime (modulusP he4) \<and>
   valid_ct he4 \<lparr>slots = [78, 111, 0, 0], coins = [3]\<rparr> \<and>
   valid_ct he4 \<lparr>slots = [78, 105, 0, 0], coins = [4]\<rparr> \<and>
   decryptDecodeInt he4
     (fst (equality_mask he4 (modulusP he4)
        \<lparr>slots = [78, 111, 0, 0], coins = [3]\<rparr> \<lparr>slots = [78, 105, 0, 0], coins = [4]\<rparr> 5)) =
     [1, 0, 1, 1]"
proof -
  have p: "is_prime (modulusP he4)" using is_prime_257 by (simp add: he4_def)
  have a: "valid_ct he4 \<lparr>slots = [78, 111, 0, 0], coins = [3]\<rparr>"
    by (simp add: valid_ct_def he4_def)
  have b: "valid_ct he4 \<lparr>slots = [78, 105, 0, 0], coins = [4]\<rparr>"
    by (simp add: valid_ct_def he4_def)
  have "decryptDecodeInt he4
     (fst (equality_mask he4 (modulusP he4)
        \<lparr>slots = [78, 111, 0, 0], coins = [3]\<rparr> \<lparr>slots = [78, 105, 0, 0], coins = [4]\<rparr> 5)) =
     map2 (\<lambda>x y. if x = y then 1 else 0)
       (decryptDecodeInt he4 \<lparr>slots = [78, 111, 0, 0], coins = [3]\<rparr>)
       (decryptDecodeInt he4 \<lparr>slots = [78, 105, 0, 0], coins = [4]\<rparr>)"
    using C2_equality_mask [OF p a b, of 5] by (rule conjunct1)
  also have "\<dots> = [1, 0, 1, 1]" by (simp add: decryptDecodeInt_def)
  finally show ?thesis using p a b by simp
qed

section \<open>The rotate-and-multiply loop\<close>

lemma prod_lessThan_add:
  "prod f {..<m + n} = prod f {..<m} * prod (\<lambda>t. f (m + t)) {..<n}" for f :: "nat \<Rightarrow> int"
  by (induction n) (simp_all add: mult.assoc)

lemma window_double:
  assumes "0 < length v"
  shows "(window P v i m * window P v ((m + i) mod length v) m) mod P = window P v i (2 * m)"
proof -
  let ?n = "length v"
  have shift: "((m + i) mod ?n + t) mod ?n = (i + (m + t)) mod ?n" for t
  proof -
    have "((m + i) mod ?n + t) mod ?n = ((m + i) + t) mod ?n" by (rule mod_add_left_eq)
    also have "(m + i) + t = i + (m + t)" by simp
    finally show ?thesis .
  qed
  have "(window P v i m * window P v ((m + i) mod ?n) m) mod P =
        ((\<Prod>t<m. v ! ((i + t) mod ?n)) * (\<Prod>t<m. v ! (((m + i) mod ?n + t) mod ?n))) mod P"
    by (simp add: window_def mod_mult_eq)
  also have "\<dots> = ((\<Prod>t<m. v ! ((i + t) mod ?n)) * (\<Prod>t<m. v ! ((i + (m + t)) mod ?n))) mod P"
    by (simp only: shift)
  also have "\<dots> = (\<Prod>t<m + m. v ! ((i + t) mod ?n)) mod P"
    by (simp only: prod_lessThan_add [of "\<lambda>t. v ! ((i + t) mod ?n)" m m])
  finally show ?thesis by (simp add: window_def mult_2)
qed

lemma rot_step_slots:
  assumes n: "length v = slotCount he" and rot: "rot < slotCount he"
    and inv: "slots res = map (\<lambda>i. window (modulusP he) v i rot) [0..<slotCount he]"
  shows "slots (multiply he res (rotate_ct he res (- int rot))) =
           map (\<lambda>i. window (modulusP he) v i (2 * rot)) [0..<slotCount he]"
proof (rule nth_equalityI)
  have sh: "nat (int rot mod int (slotCount he)) = rot"
    using rot by simp
  show len: "length (slots (multiply he res (rotate_ct he res (- int rot)))) =
        length (map (\<lambda>i. window (modulusP he) v i (2 * rot)) [0..<slotCount he])"
    by (simp add: multiply_def rotate_ct_def inv)
  fix i assume "i < length (slots (multiply he res (rotate_ct he res (- int rot))))"
  then have i: "i < slotCount he" using len by simp
  have pos: "0 < length v" using i n by simp
  have m: "(rot + i) mod slotCount he < slotCount he" using i by simp
  have "slots (multiply he res (rotate_ct he res (- int rot))) ! i =
        (window (modulusP he) v i rot * window (modulusP he) v ((rot + i) mod slotCount he) rot) mod modulusP he"
    using i m by (simp add: multiply_def rotate_ct_def sh inv nth_rotate)
  also have "\<dots> = window (modulusP he) v i (2 * rot)"
    using window_double [OF pos, of "modulusP he" i rot] n by simp
  finally show "slots (multiply he res (rotate_ct he res (- int rot))) ! i =
        map (\<lambda>i. window (modulusP he) v i (2 * rot)) [0..<slotCount he] ! i"
    using i by simp
qed

lemma rot_loop_window:
  assumes "length v = slotCount he" "slotCount he = 2 ^ k" "j \<le> k"
    and "slots res = map (\<lambda>i. window (modulusP he) v i (2 ^ j)) [0..<slotCount he]"
  shows "\<exists>r. rot_loop he (int (2 ^ j)) res = Some r \<and>
             slots r = map (\<lambda>i. window (modulusP he) v i (slotCount he)) [0..<slotCount he]"
  using assms(3,4)
proof (induction "k - j" arbitrary: j res)
  case 0
  then have "j = k" by simp
  then have "\<not> int (2 ^ j) < int (slotCount he)" using assms(2) by simp
  then have "rot_loop he (int (2 ^ j)) res = Some res"
    by (subst rot_loop.simps) simp
  then show ?case using "0.prems"(2) \<open>j = k\<close> assms(2) by simp
next
  case (Suc d)
  then have jk: "j < k" by simp
  then have lt: "(2::nat) ^ j < slotCount he" using assms(2) by simp
  have step: "rot_loop he (int (2 ^ j)) res =
              rot_loop he (int (2 ^ Suc j)) (multiply he res (rotate_ct he res (- int (2 ^ j))))"
    using lt by (subst rot_loop.simps) (simp add: mult.commute)
  have inv': "slots (multiply he res (rotate_ct he res (- int (2 ^ j)))) =
           map (\<lambda>i. window (modulusP he) v i (2 ^ Suc j)) [0..<slotCount he]"
    using rot_step_slots [OF assms(1) lt Suc.prems(2)] by simp
  have "d = k - Suc j" using Suc.hyps(2) by simp
  from Suc.hyps(1) [OF this _ inv'] jk show ?case unfolding step by simp
qed

lemma window_shift:
  assumes "0 < length v"
  shows "(\<Prod>t<length v. v ! ((Suc i + t) mod length v)) = (\<Prod>t<length v. v ! ((i + t) mod length v))"
proof -
  obtain m where m: "length v = Suc m" using assms by (cases "length v") auto
  define g where "g t = v ! ((i + t) mod length v)" for t
  have "(i + Suc m) mod Suc m = i mod Suc m" by (rule mod_add_self2)
  then have wrap: "g (Suc m) = g 0" by (simp add: g_def m)
  have "(\<Prod>t<Suc m. g (Suc t)) = (\<Prod>t<m. g (Suc t)) * g (Suc m)" by simp
  also have "\<dots> = g 0 * (\<Prod>t<m. g (Suc t))" by (simp add: wrap mult.commute)
  also have "\<dots> = (\<Prod>t<Suc m. g t)" by (simp only: prod.lessThan_Suc_shift)
  finally show ?thesis by (simp add: g_def m)
qed

lemma prod_list_nth: "prod_list v = (\<Prod>t<length v. v ! t)" for v :: "int list"
proof (induction v rule: rev_induct)
  case Nil
  show ?case by simp
next
  case (snoc x xs)
  have "(\<Prod>t<length xs. (xs @ [x]) ! t) = (\<Prod>t<length xs. xs ! t)"
    by (rule prod.cong) (simp_all add: nth_append)
  then show ?case using snoc by simp
qed

lemma window_full:
  assumes "0 < length v"
  shows "window P v i (length v) = prod_list v mod P"
proof -
  have "(\<Prod>t<length v. v ! ((i + t) mod length v)) = (\<Prod>t<length v. v ! t)"
  proof (induction i)
    case 0
    then show ?case by simp
  next
    case (Suc i)
    then show ?case using window_shift [OF assms, of i] by simp
  qed
  also have "\<dots> = prod_list v"
    by (simp add: prod_list_nth)
  finally show ?thesis by (simp add: window_def)
qed

lemma rot_loop_slots:
  assumes "valid_ct he res" "slotCount he = 2 ^ k"
  shows "\<exists>r. rot_loop he 1 res = Some r \<and>
             slots r = replicate (slotCount he) (prod_list (slots res) mod modulusP he)"
proof -
  let ?n = "slotCount he" and ?P = "modulusP he"
  have len: "length (slots res) = ?n" using assms(1) by (simp add: valid_ct_def)
  have pos: "0 < length (slots res)" using len assms(2) by simp
  have init: "slots res = map (\<lambda>i. window ?P (slots res) i (2 ^ 0)) [0..<?n]"
  proof (rule nth_equalityI)
    show "length (slots res) = length (map (\<lambda>i. window ?P (slots res) i (2 ^ 0)) [0..<?n])"
      using len by simp
    fix i assume i: "i < length (slots res)"
    then have "0 \<le> slots res ! i \<and> slots res ! i < ?P"
      using assms(1) by (simp add: valid_ct_def)
    then show "slots res ! i = map (\<lambda>i. window ?P (slots res) i (2 ^ 0)) [0..<?n] ! i"
      using i len by (simp add: window_def)
  qed
  have "0 \<le> k" by simp
  from rot_loop_window [OF len assms(2) this init] obtain r where
    r: "rot_loop he (int (2 ^ 0)) res = Some r"
       "slots r = map (\<lambda>i. window ?P (slots res) i ?n) [0..<?n]"
    by blast
  have w: "window ?P (slots res) i ?n = prod_list (slots res) mod ?P" for i
    using window_full [OF pos, of ?P i] len by simp
  have "map (\<lambda>i. window ?P (slots res) i ?n) [0..<?n] = replicate ?n (prod_list (slots res) mod ?P)"
    by (simp only: w map_replicate_const length_upt diff_zero)
  with r show ?thesis by simp
qed


lemma prod_list_bits:
  "\<forall>v\<in>set xs. v = 0 \<or> v = 1 \<Longrightarrow> prod_list xs = (if \<forall>v\<in>set xs. v = 1 then 1 else (0::int))"
  by (induction xs) auto

text \<open>
  Claim C4. For a slot count that is a power of two and a ciphertext whose slots all
  decode to 0 or 1, the rotate-and-multiply loop (from \<open>rot = 1\<close>) ends, and leaves a
  ciphertext in which every slot decodes to the product of all the original slots:
  1 everywhere when every original slot was 1, and 0 everywhere otherwise.
\<close>

theorem C4_rotate_and_multiply:
  assumes "slotCount he = 2 ^ k" and "1 < modulusP he"
    and "length (slots res) = slotCount he" and "\<forall>v\<in>set (slots res). v = 0 \<or> v = 1"
  shows "\<exists>r. rot_loop he 1 res = Some r \<and>
           decryptDecodeInt he r =
             replicate (slotCount he) (prod_list (decryptDecodeInt he res) mod modulusP he) \<and>
           decryptDecodeInt he r =
             replicate (slotCount he) (if \<forall>v\<in>set (decryptDecodeInt he res). v = 1 then 1 else 0)"
proof -
  have v: "valid_ct he res" using assms(2,3,4) by (auto simp: valid_ct_def)
  from rot_loop_slots [OF v assms(1)] obtain r where
    r: "rot_loop he 1 res = Some r"
       "slots r = replicate (slotCount he) (prod_list (slots res) mod modulusP he)"
    by blast
  have "prod_list (slots res) mod modulusP he = (if \<forall>v\<in>set (slots res). v = 1 then 1 else 0)"
    using prod_list_bits [OF assms(4)] assms(2) by simp
  with r show ?thesis by (simp add: decryptDecodeInt_def)
qed

theorem C4_rotate_and_multiply_witness:
  "slotCount he4 = 2 ^ 2 \<and> 1 < modulusP he4 \<and>
   length (slots \<lparr>slots = [1, 1, 0, 1], coins = [9]\<rparr>) = slotCount he4 \<and>
   set (slots \<lparr>slots = [1, 1, 0, 1], coins = [9]\<rparr>) \<subseteq> {0, 1} \<and>
   (\<exists>r. rot_loop he4 1 \<lparr>slots = [1, 1, 0, 1], coins = [9]\<rparr> = Some r \<and>
        decryptDecodeInt he4 r = [0, 0, 0, 0])"
proof -
  have n: "slotCount he4 = 2 ^ 2" by (simp add: he4_def)
  have p: "1 < modulusP he4" by (simp add: he4_def)
  have l: "length (slots \<lparr>slots = [1, 1, 0, 1], coins = [9]\<rparr>) = slotCount he4"
    by (simp add: he4_def)
  have b: "\<forall>v\<in>set (slots \<lparr>slots = [1, 1, 0, 1], coins = [9]\<rparr>). v = 0 \<or> v = 1" by simp
  from C4_rotate_and_multiply [OF n p l b] obtain r where
    "rot_loop he4 1 \<lparr>slots = [1, 1, 0, 1], coins = [9]\<rparr> = Some r"
    "decryptDecodeInt he4 r =
       replicate (slotCount he4)
         (if \<forall>v\<in>set (decryptDecodeInt he4 \<lparr>slots = [1, 1, 0, 1], coins = [9]\<rparr>). v = 1 then 1 else 0)"
    by blast
  then have "\<exists>r. rot_loop he4 1 \<lparr>slots = [1, 1, 0, 1], coins = [9]\<rparr> = Some r \<and>
        decryptDecodeInt he4 r = [0, 0, 0, 0]"
    by (simp add: decryptDecodeInt_def he4_def numeral_eq_Suc)
  then show ?thesis using n p l b by simp
qed

section \<open>The masked value of a record\<close>

lemma valid_indicator:
  assumes "1 < modulusP he" "length xs = slotCount he" "length ys = slotCount he"
  shows "valid_ct he \<lparr>slots = map2 (\<lambda>x y. if x = y then 1 else 0) xs ys, coins = cs\<rparr>"
  using assms by (auto simp: valid_ct_def dest!: in_set_zipE)

lemma equality_mask_valid:
  assumes "is_prime (modulusP he)" "valid_ct he a" "valid_ct he b"
  shows "valid_ct he (fst (equality_mask he (modulusP he) a b g))"
proof -
  have P1: "1 < modulusP he" using assms(1) by (simp add: is_prime_def)
  have la: "length (slots a) = slotCount he" and lb: "length (slots b) = slotCount he"
    using assms by (simp_all add: valid_ct_def)
  show ?thesis
    unfolding valid_ct_def equality_mask_slots [OF assms]
    using P1 la lb by (auto dest!: in_set_zipE)
qed

lemma equality_mask_bits:
  assumes "is_prime (modulusP he)" "valid_ct he a" "valid_ct he b"
  shows "prod_list (slots (fst (equality_mask he (modulusP he) a b g))) =
           (if slots a = slots b then 1 else 0)"
proof -
  have la: "length (slots a) = slotCount he" and lb: "length (slots b) = slotCount he"
    using assms by (simp_all add: valid_ct_def)
  let ?m = "map2 (\<lambda>x y. if x = y then 1 else (0::int)) (slots a) (slots b)"
  have bits: "\<forall>v\<in>set ?m. v = 0 \<or> v = 1" by (auto dest!: in_set_zipE)
  have "(\<forall>v\<in>set ?m. v = 1) \<longleftrightarrow> ?m = replicate (slotCount he) 1"
  proof
    assume "\<forall>v\<in>set ?m. v = 1"
    then show "?m = replicate (slotCount he) 1"
      using la lb by (intro replicate_eqI) auto
  next
    assume "?m = replicate (slotCount he) 1"
    then show "\<forall>v\<in>set ?m. v = 1" by (metis in_set_replicate)
  qed
  also have "\<dots> \<longleftrightarrow> slots a = slots b"
    by (rule indicator_all_ones [OF la lb])
  finally show ?thesis
    unfolding equality_mask_slots [OF assms] prod_list_bits [OF bits] by simp
qed

lemma multiply_replicate_slots:
  assumes "valid_ct he c" "b = 0 \<or> b = 1" "slots r = replicate (slotCount he) b"
  shows "slots (multiply he r c) = (if b = 1 then slots c else replicate (slotCount he) 0)"
proof (rule nth_equalityI)
  have lc: "length (slots c) = slotCount he" using assms(1) by (simp add: valid_ct_def)
  show len: "length (slots (multiply he r c)) =
             length (if b = 1 then slots c else replicate (slotCount he) 0)"
    using lc assms(3) by (simp add: multiply_def)
  fix i assume "i < length (slots (multiply he r c))"
  then have i: "i < slotCount he" using lc assms(3) by (simp add: multiply_def)
  then have "0 \<le> slots c ! i \<and> slots c ! i < modulusP he"
    using assms(1) lc by (simp add: valid_ct_def)
  then show "slots (multiply he r c) ! i =
             (if b = 1 then slots c else replicate (slotCount he) 0) ! i"
    using i lc assms(2,3) by (auto simp: multiply_def)
qed

lemma search_entry_slots:
  assumes "is_prime (modulusP he)" "slotCount he = 2 ^ k"
    and "valid_ct he key" "valid_ct he query" "valid_ct he capital"
  shows "\<exists>masked. search_entry he (modulusP he) query (key, capital) g = Some (masked, Suc g) \<and>
           slots masked = (if slots key = slots query then slots capital
                           else replicate (slotCount he) 0)"
proof -
  let ?P = "modulusP he"
  have P1: "1 < ?P" using assms(1) by (simp add: is_prime_def)
  obtain res g' where em: "equality_mask he ?P key query g = (res, g')"
    by (cases "equality_mask he ?P key query g")
  have g': "g' = Suc g"
    using em by (simp add: equality_mask_def Let_def encodeEncrypt_def)
  have res: "res = fst (equality_mask he ?P key query g)" using em by simp
  have v: "valid_ct he res"
    unfolding res by (rule equality_mask_valid [OF assms(1,3,4)])
  have b: "prod_list (slots res) = (if slots key = slots query then 1 else 0)"
    unfolding res by (rule equality_mask_bits [OF assms(1,3,4)])
  from rot_loop_slots [OF v assms(2)] obtain r where
    r: "rot_loop he 1 res = Some r"
       "slots r = replicate (slotCount he) (prod_list (slots res) mod ?P)"
    by blast
  have r': "slots r = replicate (slotCount he) (if slots key = slots query then 1 else 0)"
    using r(2) b P1 by simp
  have "slots (multiply he r capital) =
        (if (if slots key = slots query then 1 else (0::int)) = 1 then slots capital
         else replicate (slotCount he) 0)"
    by (rule multiply_replicate_slots [OF assms(5) _ r']) simp
  then have "slots (multiply he r capital) =
        (if slots key = slots query then slots capital else replicate (slotCount he) 0)"
    by simp
  moreover have "search_entry he ?P query (key, capital) g = Some (multiply he r capital, Suc g)"
    using em r(1) g' by (simp add: search_entry_def)
  ultimately show ?thesis by blast
qed







section \<open>The CSV reader\<close>

lemma size_t_of_int_id: "0 \<le> m \<Longrightarrow> m < 2 ^ 31 \<Longrightarrow> size_t_of_int m = m"
  by (simp add: size_t_of_int_def)

lemma getline_delim:
  assumes "d \<notin> set l"
  shows "getline (l @ d # rest) d = Some (l, rest)"
proof -
  have tw: "takeWhile (\<lambda>c. c \<noteq> d) (l @ d # rest) = l"
    using assms by (induction l) auto
  have dw: "dropWhile (\<lambda>c. c \<noteq> d) (l @ d # rest) = d # rest"
    using assms by (induction l) auto
  show ?thesis unfolding getline_def tw dw by simp
qed

lemma getline_end:
  assumes "d \<notin> set l" "l \<noteq> []"
  shows "getline l d = Some (l, [])"
proof -
  have tw: "takeWhile (\<lambda>c. c \<noteq> d) l = l" using assms(1) by (induction l) auto
  have dw: "dropWhile (\<lambda>c. c \<noteq> d) l = []" using assms(1) by (induction l) auto
  show ?thesis unfolding getline_def tw dw using assms(2) by simp
qed

lemma file_lines_None: "getline d newline = None \<Longrightarrow> file_lines d = []"
  by (subst file_lines.simps) simp

lemma file_lines_Some: "getline d newline = Some (l, rest) \<Longrightarrow> file_lines d = l # file_lines rest"
  by (subst file_lines.simps) simp

lemma file_lines_Nil_conv: "file_lines d = [] \<Longrightarrow> getline d newline = None"
  by (subst (asm) file_lines.simps) (simp split: option.splits prod.splits)

lemma file_lines_Cons_conv:
  "file_lines d = l # ls \<Longrightarrow> \<exists>rest. getline d newline = Some (l, rest) \<and> file_lines rest = ls"
  by (subst (asm) file_lines.simps) (simp split: option.splits prod.splits)

lemma split_row_Nil: "split_row s = [] \<longleftrightarrow> s = []"
  by (subst split_row.simps) (auto simp: getline_def)

lemma split_row_empty: "split_row [] = []"
  by (simp add: split_row_Nil)

lemma split_row_csv_line:
  assumes "csv_record (k, v, tail)"
  shows "\<exists>rest. split_row (csv_line (k, v, tail)) = k # v # rest"
proof -
  have k: "CHR '','' \<notin> set k" and v: "CHR '','' \<notin> set v"
    and m: "tail = [] \<or> hd tail = CHR '',''" and ne: "v \<noteq> [] \<or> tail \<noteq> []"
    using assms by (simp_all add: csv_record_def)
  have "getline (k @ CHR '','' # (v @ tail)) (CHR '','') = Some (k, v @ tail)"
    using k by (rule getline_delim)
  then have s1: "split_row (csv_line (k, v, tail)) = k # split_row (v @ tail)"
    by (subst split_row.simps) (simp add: csv_line_def)
  have "\<exists>rest'. getline (v @ tail) (CHR '','') = Some (v, rest')"
  proof (cases tail)
    case Nil
    then have "v \<noteq> []" using ne by simp
    then show ?thesis using getline_end [OF v] Nil by simp
  next
    case (Cons c cs)
    then have "c = CHR '',''" using m by simp
    then show ?thesis using getline_delim [OF v, of cs] Cons by simp
  qed
  then obtain rest' where "getline (v @ tail) (CHR '','') = Some (v, rest')" by blast
  then have "split_row (v @ tail) = v # split_row rest'"
    by (subst split_row.simps) simp
  with s1 show ?thesis by simp
qed

lemma csv_line_no_newline: "csv_record r \<Longrightarrow> newline \<notin> set (csv_line r)"
  by (cases r) (auto simp: csv_record_def csv_line_def newline_def)

lemma csv_line_not_Nil: "csv_line r \<noteq> []"
  by (cases r) (simp add: csv_line_def)

lemma file_lines_csv_text:
  "\<forall>r\<in>set recs. csv_record r \<Longrightarrow> file_lines (csv_text nl recs) = map csv_line recs"
proof (induction nl recs rule: csv_text.induct)
  case (1 nl)
  show ?case by (simp add: file_lines_None getline_def)
next
  case (2 nl r)
  then have n: "newline \<notin> set (csv_line r)" by (simp add: csv_line_no_newline)
  show ?case
  proof (cases nl)
    case True
    have "getline (csv_line r @ newline # []) newline = Some (csv_line r, [])"
      using n by (rule getline_delim)
    then have "file_lines (csv_line r @ [newline]) = csv_line r # file_lines []"
      by (simp add: file_lines_Some)
    then show ?thesis using True by (simp add: file_lines_None getline_def)
  next
    case False
    have "getline (csv_line r) newline = Some (csv_line r, [])"
      using n csv_line_not_Nil by (rule getline_end)
    then have "file_lines (csv_line r) = csv_line r # file_lines []"
      by (rule file_lines_Some)
    then show ?thesis using False by (simp add: file_lines_None getline_def)
  qed
next
  case (3 nl r r' rs)
  then have n: "newline \<notin> set (csv_line r)" by (simp add: csv_line_no_newline)
  have "getline (csv_line r @ newline # csv_text nl (r' # rs)) newline =
        Some (csv_line r, csv_text nl (r' # rs))"
    using n by (rule getline_delim)
  then have "file_lines (csv_text nl (r # r' # rs)) = csv_line r # file_lines (csv_text nl (r' # rs))"
    by (simp add: file_lines_Some)
  then show ?case using 3 by simp
qed

text \<open>one step of the outer loop on a line with at least two cols\<close>

lemma read_lines_step:
  assumes "getline data_file newline = Some (line, rest)"
    and "split_row line = k # v # cols"
  shows "read_lines ub data_file maxLen stored dataset =
           (if int (length k) > size_t_of_int maxLen then
              Inl (RuntimeError (''Country name '' @ k @ '' too long''))
            else if int (length v) > size_t_of_int maxLen then
              Inl (RuntimeError (''Capital name '' @ v @ '' too long''))
            else read_lines ub rest maxLen
                   (split_row line @ drop (length (split_row line)) stored)
                   (dataset @ [(k, v)]))"
  using assms by (subst read_lines.simps) (simp add: Let_def row_at_def)

lemma two_fields: "2 \<le> length xs \<Longrightarrow> \<exists>k v cols. xs = k # v # cols"
  by (cases xs; cases "tl xs") auto

lemma read_lines_ok:
  assumes "0 \<le> maxLen" "maxLen < 2 ^ 31"
    and "\<forall>l\<in>set (file_lines data_file). 2 \<le> length (split_row l)"
    and "\<forall>l\<in>set (file_lines data_file). row_ok maxLen (split_row l)"
  shows "read_lines ub data_file maxLen stored dataset =
           Inr (dataset @ map (\<lambda>l. (split_row l ! 0, split_row l ! 1)) (file_lines data_file))"
  using assms(3,4)
proof (induction "file_lines data_file" arbitrary: data_file stored dataset)
  case Nil
  then have "getline data_file newline = None" by (simp add: file_lines_Nil_conv)
  then show ?case using Nil(1) [symmetric] by (subst read_lines.simps) simp
next
  case (Cons l ls)
  from Cons.hyps(2) [symmetric] obtain rest where
    g: "getline data_file newline = Some (l, rest)" and r: "file_lines rest = ls"
    by (auto dest: file_lines_Cons_conv)
  have fl: "file_lines data_file = l # file_lines rest" using g by (rule file_lines_Some)
  obtain k v cols where row: "split_row l = k # v # cols"
    using Cons.prems(1) fl two_fields by fastforce
  have ok: "int (length k) \<le> maxLen" "int (length v) \<le> maxLen"
    using Cons.prems(2) fl row by (simp_all add: row_ok_def)
  have st: "size_t_of_int maxLen = maxLen" using assms(1,2) by (rule size_t_of_int_id)
  have ih: "read_lines ub rest maxLen (split_row l @ drop (length (split_row l)) stored) (dataset @ [(k, v)]) =
        Inr ((dataset @ [(k, v)]) @ map (\<lambda>l. (split_row l ! 0, split_row l ! 1)) (file_lines rest))"
    using Cons.prems fl by (intro Cons.hyps(1)) (simp_all add: r)
  show ?case
    unfolding read_lines_step [OF g row] fl using ok st ih row by simp
qed

lemma read_lines_too_long:
  assumes "0 \<le> maxLen" "maxLen < 2 ^ 31"
    and "\<forall>l\<in>set (file_lines data_file). 2 \<le> length (split_row l)"
    and "\<exists>l\<in>set (file_lines data_file). \<not> row_ok maxLen (split_row l)"
  shows "\<exists>msg. read_lines ub data_file maxLen stored dataset = Inl (RuntimeError msg)"
  using assms(3,4)
proof (induction "file_lines data_file" arbitrary: data_file stored dataset)
  case Nil
  then show ?case by simp
next
  case (Cons l ls)
  from Cons.hyps(2) [symmetric] obtain rest where
    g: "getline data_file newline = Some (l, rest)" and r: "file_lines rest = ls"
    by (auto dest: file_lines_Cons_conv)
  have fl: "file_lines data_file = l # file_lines rest" using g by (rule file_lines_Some)
  obtain k v cols where row: "split_row l = k # v # cols"
    using Cons.prems(1) fl two_fields by fastforce
  have st: "size_t_of_int maxLen = maxLen" using assms(1,2) by (rule size_t_of_int_id)
  show ?case
  proof (cases "row_ok maxLen (split_row l)")
    case False
    then show ?thesis
      unfolding read_lines_step [OF g row] using st row by (auto simp: row_ok_def)
  next
    case True
    then have ex: "\<exists>l\<in>set (file_lines rest). \<not> row_ok maxLen (split_row l)"
      using Cons.prems(2) fl by simp
    have "\<exists>msg. read_lines ub rest maxLen (split_row l @ drop (length (split_row l)) stored)
                   (dataset @ [(k, v)]) = Inl (RuntimeError msg)"
      using Cons.prems(1) fl ex by (intro Cons.hyps(1)) (simp_all add: r)
    then show ?thesis
      unfolding read_lines_step [OF g row] using True st row by (simp add: row_ok_def)
  qed
qed

lemma read_lines_in_bounds:
  assumes "\<forall>l\<in>set (file_lines data_file). 2 \<le> length (split_row l)"
  shows "read_lines ub data_file maxLen stored dataset =
         read_lines ub' data_file maxLen stored' dataset"
  using assms
proof (induction "file_lines data_file" arbitrary: data_file stored stored' dataset)
  case Nil
  then have "getline data_file newline = None" by (simp add: file_lines_Nil_conv)
  then show ?case by (subst read_lines.simps, subst (2) read_lines.simps) simp
next
  case (Cons l ls)
  from Cons.hyps(2) [symmetric] obtain rest where
    g: "getline data_file newline = Some (l, rest)" and r: "file_lines rest = ls"
    by (auto dest: file_lines_Cons_conv)
  have fl: "file_lines data_file = l # file_lines rest" using g by (rule file_lines_Some)
  obtain k v cols where row: "split_row l = k # v # cols"
    using Cons.prems(1) fl two_fields by fastforce
  have "read_lines ub rest maxLen (split_row l @ drop (length (split_row l)) stored) (dataset @ [(k, v)]) =
        read_lines ub' rest maxLen (split_row l @ drop (length (split_row l)) stored') (dataset @ [(k, v)])"
    using Cons.prems fl by (intro Cons.hyps(1)) (simp_all add: r)
  then show ?case
    unfolding read_lines_step [OF g row] by simp
qed


text \<open>
  Claim C7, as the code has it. On a file that is the text of key/value records (each
  line a key, a comma and a value, possibly followed by further fields, with a value
  or a further field that is not empty), and for a bound \<open>maxLen\<close> that is a slot count
  (\<open>0 \<le> maxLen < 2^31\<close>), \<open>read_csv\<close> ends in an error exactly when the key or the
  value of some record is longer than \<open>maxLen\<close>, and then no dataset is returned; when
  no key or value is longer, it returns the pairs (key, value) of all the records, whole,
  in the order of the file. This holds whatever an unchecked read yields.
\<close>

theorem C7_read_csv:
  assumes "fs filename = Some (csv_text nl recs)" and "\<forall>r\<in>set recs. csv_record r"
    and "0 \<le> maxLen" and "maxLen < 2 ^ 31"
  shows "((\<exists>e. read_csv ub fs filename maxLen = Inl e) \<longleftrightarrow>
            (\<exists>(k, v, tail)\<in>set recs. int (length k) > maxLen \<or> int (length v) > maxLen)) \<and>
         ((\<forall>(k, v, tail)\<in>set recs. int (length k) \<le> maxLen \<and> int (length v) \<le> maxLen) \<longrightarrow>
          read_csv ub fs filename maxLen = Inr (map (\<lambda>(k, v, tail). (k, v)) recs))"
proof -
  let ?d = "csv_text nl recs"
  have rc: "read_csv ub fs filename maxLen = read_lines ub ?d maxLen [] []"
    using assms(1) by (simp add: read_csv_def)
  have fl: "file_lines ?d = map csv_line recs"
    using assms(2) by (rule file_lines_csv_text)
  have row: "split_row (csv_line (k, v, tail)) ! 0 = k \<and> split_row (csv_line (k, v, tail)) ! 1 = v \<and>
             2 \<le> length (split_row (csv_line (k, v, tail)))"
    if "(k, v, tail) \<in> set recs" for k v tail
  proof -
    have "csv_record (k, v, tail)" using assms(2) that by blast
    from split_row_csv_line [OF this] show ?thesis by auto
  qed
  have two: "\<forall>l\<in>set (file_lines ?d). 2 \<le> length (split_row l)"
    unfolding fl using row by auto
  have pairs: "map (\<lambda>l. (split_row l ! 0, split_row l ! 1)) (file_lines ?d) =
               map (\<lambda>(k, v, tail). (k, v)) recs"
    unfolding fl using row by auto
  have okiff: "(\<forall>l\<in>set (file_lines ?d). row_ok maxLen (split_row l)) \<longleftrightarrow>
               (\<forall>(k, v, tail)\<in>set recs. int (length k) \<le> maxLen \<and> int (length v) \<le> maxLen)"
    unfolding fl using row by (auto simp: row_ok_def)
  show ?thesis
  proof (cases "\<forall>l\<in>set (file_lines ?d). row_ok maxLen (split_row l)")
    case True
    have "read_csv ub fs filename maxLen = Inr (map (\<lambda>(k, v, tail). (k, v)) recs)"
      unfolding rc using read_lines_ok [OF assms(3,4) two True, of ub "[]" "[]"] pairs by simp
    then show ?thesis using True okiff by fastforce
  next
    case False
    then have ex: "\<exists>l\<in>set (file_lines ?d). \<not> row_ok maxLen (split_row l)" by simp
    from read_lines_too_long [OF assms(3,4) two ex, of ub "[]" "[]"]
    have "\<exists>e. read_csv ub fs filename maxLen = Inl e" unfolding rc by blast
    moreover have "\<exists>(k, v, tail)\<in>set recs. int (length k) > maxLen \<or> int (length v) > maxLen"
      using False okiff by (auto simp: not_le)
    ultimately show ?thesis by fastforce
  qed
qed

text \<open>
  On the lines \<^verbatim>\<open>a,b\<close> and \<^verbatim>\<open>c,\<close> no key or value is longer than 32 and no error
  is raised, but the second pair returned is not a pair of the file: the row of the
  second line has the single field \<^verbatim>\<open>c\<close>, and \<^verbatim>\<open>row[1]\<close> reads the value that
  the first line has left in the storage of the vector.
\<close>

theorem C7_counterexample:
  "file_lines stale_value_csv = [''a,b'', ''c,''] \<and>
   split_row ''c,'' = [''c''] \<and>
   read_csv stale_read [''db'' \<mapsto> stale_value_csv] ''db'' 32 = Inr [(''a'', ''b''), (''c'', ''b'')]"
  by code_simp

theorem C7_read_csv_witness:
  "[''db'' \<mapsto> csv_text True countries_records] ''db'' = Some (csv_text True countries_records) \<and>
   csv_text True countries_records =
     ''Norway,Oslo'' @ [newline] @ ''Sweden,Stockholm'' @ [newline] \<and>
   list_all csv_record countries_records \<and>
   (\<exists>e. read_csv stale_read [''db'' \<mapsto> csv_text True countries_records] ''db'' 8 = Inl e) \<and>
   read_csv stale_read [''db'' \<mapsto> csv_text True countries_records] ''db'' 32 =
     Inr [(''Norway'', ''Oslo''), (''Sweden'', ''Stockholm'')]"
proof -
  let ?fs = "[''db'' \<mapsto> csv_text True countries_records]"
  have fs: "?fs ''db'' = Some (csv_text True countries_records)" by simp
  have rendered: "csv_text True countries_records =
     ''Norway,Oslo'' @ [newline] @ ''Sweden,Stockholm'' @ [newline]" by code_simp
  have la: "list_all csv_record countries_records" by code_simp
  then have recs: "\<forall>r\<in>set countries_records. csv_record r" by (simp add: list_all_iff)
  have b0: "(0::int) \<le> 8" and b1: "(8::int) < 2 ^ 31" by simp_all
  have c0: "(0::int) \<le> 32" and c1: "(32::int) < 2 ^ 31" by simp_all
  have long: "\<exists>(k, v, tail)\<in>set countries_records. int (length k) > 8 \<or> int (length v) > 8"
    by (simp add: countries_records_def)
  have short: "\<forall>(k, v, tail)\<in>set countries_records. int (length k) \<le> 32 \<and> int (length v) \<le> 32"
    by (simp add: countries_records_def)
  have a: "\<exists>e. read_csv stale_read ?fs ''db'' 8 = Inl e"
    using C7_read_csv [where fs = ?fs and filename = "''db''" and ub = stale_read, OF fs recs b0 b1] long
    by blast
  have "read_csv stale_read ?fs ''db'' 32 = Inr (map (\<lambda>(k, v, tail). (k, v)) countries_records)"
    using C7_read_csv [where fs = ?fs and filename = "''db''" and ub = stale_read, OF fs recs c0 c1] short
    by blast
  then have b: "read_csv stale_read ?fs ''db'' 32 = Inr [(''Norway'', ''Oslo''), (''Sweden'', ''Stockholm'')]"
    by (simp add: countries_records_def)
  show ?thesis using fs rendered la a b by blast
qed


section \<open>The unchecked indexing of \<open>read_csv\<close>\<close>

lemma split_row_fields: "2 \<le> length (split_row l) \<longleftrightarrow> comma_then_more l"
proof (cases "l = []")
  case True
  then show ?thesis by (simp add: split_row_Nil [THEN iffD2] comma_then_more_def)
next
  case False
  let ?rest = "drop 1 (dropWhile (\<lambda>c. c \<noteq> CHR '','') l)"
  have "split_row l = takeWhile (\<lambda>c. c \<noteq> CHR '','') l # split_row ?rest"
    using False by (subst split_row.simps) (simp add: getline_def)
  then have "2 \<le> length (split_row l) \<longleftrightarrow> split_row ?rest \<noteq> []"
    by (cases "split_row ?rest") simp_all
  also have "\<dots> \<longleftrightarrow> ?rest \<noteq> []" by (simp only: split_row_Nil)
  also have "\<dots> \<longleftrightarrow> \<not> length (dropWhile (\<lambda>c. c \<noteq> CHR '','') l) \<le> 1"
    by (simp only: drop_eq_Nil)
  also have "\<dots> \<longleftrightarrow> comma_then_more l"
    unfolding comma_then_more_def by linarith
  finally show ?thesis .
qed

lemma comma_then_more_iff:
  "comma_then_more l \<longleftrightarrow> (\<exists>pre post. l = pre @ CHR '','' # post \<and> post \<noteq> [])"
proof
  assume c: "comma_then_more l"
  let ?P = "\<lambda>c. c \<noteq> CHR '',''"
  obtain x post where d: "dropWhile ?P l = x # post" and p: "post \<noteq> []"
    using c by (cases "dropWhile ?P l"; cases "tl (dropWhile ?P l)")
               (auto simp: comma_then_more_def)
  have "\<not> ?P (hd (dropWhile ?P l))" using d hd_dropWhile [of ?P l] by simp
  then have "x = CHR '',''" using d by simp
  moreover have "l = takeWhile ?P l @ dropWhile ?P l" by simp
  ultimately have "l = takeWhile ?P l @ CHR '','' # post" using d by simp
  with p show "\<exists>pre post. l = pre @ CHR '','' # post \<and> post \<noteq> []" by blast
next
  assume "\<exists>pre post. l = pre @ CHR '','' # post \<and> post \<noteq> []"
  then obtain pre post where l: "l = pre @ CHR '','' # post" and p: "post \<noteq> []" by blast
  have "2 \<le> length (CHR '','' # post)" using p by (cases post) simp_all
  then show "comma_then_more l"
    unfolding comma_then_more_def l by (simp add: dropWhile_append)
qed

text \<open>
  Claim C10, as the code has it. \<open>read_csv\<close> reads the first two fields of each row
  without checking how many fields the row has. Both indices are below the size of the
  row exactly when the line has a comma that is followed by at least one more
  character; such a line is not empty and has a comma, but a line that is not empty and
  has a comma need not be of this form. When every line of the file is of this form,
  no read is out of range: the result of \<open>read_csv\<close> is the same whatever an unchecked
  read would yield.
\<close>

theorem C10_read_csv_in_bounds:
  "((0 < length (split_row l) \<and> 1 < length (split_row l)) \<longleftrightarrow> comma_then_more l) \<and>
   (comma_then_more l \<longleftrightarrow> (\<exists>pre post. l = pre @ CHR '','' # post \<and> post \<noteq> [])) \<and>
   (comma_then_more l \<longrightarrow> l \<noteq> [] \<and> CHR '','' \<in> set l) \<and>
   (fs filename = Some data_file \<longrightarrow>
      (\<forall>l\<in>set (file_lines data_file). comma_then_more l) \<longrightarrow>
      read_csv ub fs filename maxLen = read_csv ub' fs filename maxLen)"
proof (intro conjI impI)
  show "(0 < length (split_row l) \<and> 1 < length (split_row l)) \<longleftrightarrow> comma_then_more l"
    using split_row_fields [of l] by auto
  show "comma_then_more l \<longleftrightarrow> (\<exists>pre post. l = pre @ CHR '','' # post \<and> post \<noteq> [])"
    by (rule comma_then_more_iff)
next
  assume "comma_then_more l"
  then obtain pre post where "l = pre @ CHR '','' # post" using comma_then_more_iff by blast
  then show "l \<noteq> []" and "CHR '','' \<in> set l" by simp_all
next
  assume "fs filename = Some data_file" "\<forall>l\<in>set (file_lines data_file). comma_then_more l"
  then show "read_csv ub fs filename maxLen = read_csv ub' fs filename maxLen"
    using read_lines_in_bounds [of data_file ub maxLen "[]" "[]" ub' "[]"]
    by (simp add: read_csv_def split_row_fields)
qed

text \<open>
  The line \<^verbatim>\<open>a,\<close> is not empty and has a comma, yet it parses into the single field
  \<^verbatim>\<open>a\<close>; after the line \<^verbatim>\<open>Norway,Oslo\<close> the read of \<^verbatim>\<open>row[1]\<close> is beyond the size
  of the row and yields the capital of the line before.
\<close>

theorem C10_counterexample:
  "''a,'' \<noteq> [] \<and> CHR '','' \<in> set ''a,'' \<and>
   split_row ''a,'' = [''a''] \<and>
   file_lines stale_capital_csv = [''Norway,Oslo'', ''a,''] \<and>
   read_csv stale_read [''db'' \<mapsto> stale_capital_csv] ''db'' 32 =
     Inr [(''Norway'', ''Oslo''), (''a'', ''Oslo'')]"
  by code_simp

theorem C10_read_csv_in_bounds_witness:
  "file_lines (''Norway,Oslo'' @ [newline]) = [''Norway,Oslo''] \<and>
   comma_then_more ''Norway,Oslo'' \<and>
   0 < length (split_row ''Norway,Oslo'') \<and> 1 < length (split_row ''Norway,Oslo'') \<and>
   read_csv stale_read [''db'' \<mapsto> ''Norway,Oslo'' @ [newline]] ''db'' 32 =
     read_csv (\<lambda>storage i. Inl AssertionFailed) [''db'' \<mapsto> ''Norway,Oslo'' @ [newline]] ''db'' 32"
proof -
  have fl: "file_lines (''Norway,Oslo'' @ [newline]) = [''Norway,Oslo'']" by code_simp
  have c: "comma_then_more ''Norway,Oslo''" by code_simp
  have fs: "[''db'' \<mapsto> ''Norway,Oslo'' @ [newline]] ''db'' = Some (''Norway,Oslo'' @ [newline])"
    by simp
  have all: "\<forall>l\<in>set (file_lines (''Norway,Oslo'' @ [newline])). comma_then_more l"
    unfolding fl using c by simp
  note t = C10_read_csv_in_bounds [where l = "''Norway,Oslo''"
      and fs = "[''db'' \<mapsto> ''Norway,Oslo'' @ [newline]]" and filename = "''db''"
      and data_file = "''Norway,Oslo'' @ [newline]" and maxLen = 32
      and ub = stale_read and ub' = "\<lambda>storage i. Inl AssertionFailed"]
  have "0 < length (split_row ''Norway,Oslo'') \<and> 1 < length (split_row ''Norway,Oslo'')"
    using t c by blast
  moreover have "read_csv stale_read [''db'' \<mapsto> ''Norway,Oslo'' @ [newline]] ''db'' 32 =
     read_csv (\<lambda>storage i. Inl AssertionFailed) [''db'' \<mapsto> ''Norway,Oslo'' @ [newline]] ''db'' 32"
    using t fs all by blast
  ultimately show ?thesis using fl c by blast
qed

section \<open>The setup check\<close>

lemma is_prime_128: "\<not> is_prime 128"
  by code_simp

text \<open>
  Claim C6. The check of \<^verbatim>\<open>main\<close> itself is the assertion that the plaintext modulus is at
  least 127: below 127 the setup ends in the failed assertion whatever the library does,
  and from 127 on the requirement, with 32 slots and the modulus unchanged, is handed to
  \<^verbatim>\<open>init\<close>. With the \<^verbatim>\<open>init\<close> of the specification, the setup ends in an error whenever
  the modulus is smaller than 128 or not prime, and \<^verbatim>\<open>main\<close> returns that error for every
  file system, query and state of the randomness source: the database is neither read
  nor encrypted. For a prime modulus of at least 128 the setup passes and gives the
  context of 32 slots over that modulus.
\<close>

theorem C6_setup_check:
  "(plaintextModulus < 127 \<longrightarrow>
      main_setup init plaintextModulus = Inl AssertionFailed \<and>
      main init ub g fs cin db_filename countryName debug plaintextModulus =
        Some (Inl AssertionFailed)) \<and>
   (127 \<le> plaintextModulus \<longrightarrow>
      main_setup init plaintextModulus =
        init ((insecure 32 16)\<lparr>req_plaintextModulus := plaintextModulus\<rparr>)) \<and>
   (plaintextModulus < 128 \<or> \<not> is_prime plaintextModulus \<longrightarrow>
      (\<exists>e. main_setup he_init plaintextModulus = Inl e \<and>
           main he_init ub g fs cin db_filename countryName debug plaintextModulus =
             Some (Inl e))) \<and>
   (128 \<le> plaintextModulus \<and> is_prime plaintextModulus \<longrightarrow>
      main_setup he_init plaintextModulus =
        Inr \<lparr>slotCount = 32, modulusP = plaintextModulus, isModularArithmetic = True\<rparr> \<and>
      main he_init ub g fs cin db_filename countryName debug plaintextModulus =
        run \<lparr>slotCount = 32, modulusP = plaintextModulus, isModularArithmetic = True\<rparr>
          ub g fs cin db_filename countryName debug plaintextModulus)"
proof (intro conjI impI)
  assume "plaintextModulus < 127"
  then show "main_setup init plaintextModulus = Inl AssertionFailed"
    and "main init ub g fs cin db_filename countryName debug plaintextModulus =
           Some (Inl AssertionFailed)"
    by (simp_all add: main_def main_setup_def always_assert_def)
next
  assume "127 \<le> plaintextModulus"
  then show "main_setup init plaintextModulus =
        init ((insecure 32 16)\<lparr>req_plaintextModulus := plaintextModulus\<rparr>)"
    by (simp add: main_setup_def always_assert_def)
next
  assume bad: "plaintextModulus < 128 \<or> \<not> is_prime plaintextModulus"
  have "\<exists>e. main_setup he_init plaintextModulus = Inl e"
    using bad by (simp add: main_setup_def always_assert_def he_init_def insecure_def)
  then obtain e where "main_setup he_init plaintextModulus = Inl e" ..
  then have "main_setup he_init plaintextModulus = Inl e \<and>
        main he_init ub g fs cin db_filename countryName debug plaintextModulus = Some (Inl e)"
    by (simp add: main_def)
  then show "\<exists>e. main_setup he_init plaintextModulus = Inl e \<and>
           main he_init ub g fs cin db_filename countryName debug plaintextModulus =
             Some (Inl e)" ..
next
  assume ok: "128 \<le> plaintextModulus \<and> is_prime plaintextModulus"
  then show s: "main_setup he_init plaintextModulus =
        Inr \<lparr>slotCount = 32, modulusP = plaintextModulus, isModularArithmetic = True\<rparr>"
    by (simp add: main_setup_def always_assert_def he_init_def insecure_def)
  show "main he_init ub g fs cin db_filename countryName debug plaintextModulus =
        run \<lparr>slotCount = 32, modulusP = plaintextModulus, isModularArithmetic = True\<rparr>
          ub g fs cin db_filename countryName debug plaintextModulus"
    by (simp add: main_def s)
qed

theorem C6_setup_check_witness:
  "(100::int) < 127 \<and> main_setup he_init 100 = Inl AssertionFailed \<and>
   main he_init stale_read 0 Map.empty [] ''countries.csv'' ''Norway'' False 100 =
     Some (Inl AssertionFailed) \<and>
   main_setup he_init 127 = Inl ConfigurationError \<and>
   main he_init stale_read 0 Map.empty [] ''countries.csv'' ''Norway'' False 128 =
     Some (Inl ConfigurationError) \<and>
   (128::int) \<le> 257 \<and> is_prime 257 \<and>
   main_setup he_init 257 = Inr \<lparr>slotCount = 32, modulusP = 257, isModularArithmetic = True\<rparr>"
proof -
  have a: "(100::int) < 127" and b: "(128::int) \<le> 257" and c: "(127::int) \<le> 127"
    and d: "(127::int) \<le> 128" by simp_all
  have "main_setup he_init 100 = Inl AssertionFailed \<and>
        main he_init stale_read 0 Map.empty [] ''countries.csv'' ''Norway'' False 100 =
          Some (Inl AssertionFailed)"
    using C6_setup_check [of 100 he_init stale_read 0 Map.empty "[]" "''countries.csv''"
        "''Norway''" False] a
    by blast
  moreover have "main_setup he_init 127 =
        he_init ((insecure 32 16)\<lparr>req_plaintextModulus := 127\<rparr>)"
    using C6_setup_check [of 127 he_init] c by blast
  then have "main_setup he_init 127 = Inl ConfigurationError"
    by (simp add: he_init_def insecure_def)
  moreover have "\<exists>e. main_setup he_init 128 = Inl e \<and>
        main he_init stale_read 0 Map.empty [] ''countries.csv'' ''Norway'' False 128 =
          Some (Inl e)"
    using C6_setup_check [of 128 he_init stale_read 0 Map.empty "[]" "''countries.csv''"
        "''Norway''" False] is_prime_128
    by blast
  then have "main he_init stale_read 0 Map.empty [] ''countries.csv'' ''Norway'' False 128 =
          Some (Inl ConfigurationError)"
    using C6_setup_check [of 128 he_init] d is_prime_128
    by (auto simp: he_init_def insecure_def)
  moreover have "main_setup he_init 257 =
        Inr \<lparr>slotCount = 32, modulusP = 257, isModularArithmetic = True\<rparr>"
    using C6_setup_check [of 257 he_init] b is_prime_257 by blast
  ultimately show ?thesis using a b is_prime_257 by blast
qed

section \<open>A query longer than the slot count\<close>

lemma encode_take: "encode he (take (slotCount he) vals) = encode he vals"
  by (cases "length vals \<le> slotCount he") (simp_all add: encode_def min_def)

text \<open>
  When every line of the database file has a key and a value, \<open>run\<close> makes no read out
  of range and its result does not depend on what such a read would yield.
\<close>

lemma run_in_bounds:
  assumes "fs db_filename = Some data_file"
    and "\<forall>l\<in>set (file_lines data_file). comma_then_more l"
  shows "run he ub g fs cin db_filename countryName debug plaintextModulus =
         run he ub' g fs cin db_filename countryName debug plaintextModulus"
proof -
  have "read_csv ub fs db_filename (int (slotCount he)) =
        read_csv ub' fs db_filename (int (slotCount he))"
    using assms read_lines_in_bounds [of data_file ub "int (slotCount he)" "[]" "[]" ub' "[]"]
    by (simp add: read_csv_def split_row_fields)
  then show ?thesis by (simp add: run_def)
qed

text \<open>
  Claim C8 at a query of 33 characters, for 32 slots: \<open>run\<close> has no check on the length of
  the query, the encoding keeps its first 32 characters, and the lookup goes on: against
  a key that equals these 32 characters the answer is that key's value, not an error.
\<close>

theorem C8_query_truncated:
  "encodeEncrypt he g (stringToAscii query_string) =
     encodeEncrypt he g (stringToAscii (take (slotCount he) query_string)) \<and>
   length long_query = 33 \<and> slotCount he32 = 32 \<and>
   run he32 ub 0 [''db'' \<mapsto> long_key_csv] [] ''db'' long_query False 257 =
     Some (Inr (''xy'' @ replicate 30 (CHR 0x00)))"
proof -
  have "encode he (stringToAscii query_string) =
        encode he (stringToAscii (take (slotCount he) query_string))"
    using encode_take [of he "stringToAscii query_string"]
    by (simp add: stringToAscii_def take_map)
  then have "encodeEncrypt he g (stringToAscii query_string) =
     encodeEncrypt he g (stringToAscii (take (slotCount he) query_string))"
    by (simp add: encodeEncrypt_def)
  moreover have "length long_query = 33" by code_simp
  moreover have "slotCount he32 = 32" by code_simp
  moreover have "run he32 ub 0 [''db'' \<mapsto> long_key_csv] [] ''db'' long_query False 257 =
     Some (Inr (''xy'' @ replicate 30 (CHR 0x00)))"
  proof -
    have fs: "[''db'' \<mapsto> long_key_csv] ''db'' = Some long_key_csv" by simp
    have "list_all comma_then_more (file_lines long_key_csv)" by code_simp
    then have all: "\<forall>l\<in>set (file_lines long_key_csv). comma_then_more l"
      by (simp add: list_all_iff)
    have "run he32 stale_read 0 [''db'' \<mapsto> long_key_csv] [] ''db'' long_query False 257 =
       Some (Inr (''xy'' @ replicate 30 (CHR 0x00)))" by code_simp
    then show ?thesis
      using run_in_bounds [where fs = "[''db'' \<mapsto> long_key_csv]" and db_filename = "''db''"
          and ub = ub and ub' = stale_read, OF fs all]
      by simp
  qed
  ultimately show ?thesis by blast
qed


section \<open>The result of a lookup and the encryption randomness\<close>

lemma pow_loop_same_slots:
  "slots y = slots y' \<Longrightarrow> slots c = slots c' \<Longrightarrow>
   slots (pow_finish he (pow_loop he f y c d)) = slots (pow_finish he (pow_loop he f y' c' d))"
proof (induction he f y c d arbitrary: y' c' rule: pow_loop.induct)
  case (1 he yIsOne y ctile degree)
  have sq: "slots (square he ctile) = slots (square he c')"
    using "1.prems"(2) by (simp add: square_def)
  have mu: "slots (multiply he y ctile) = slots (multiply he y' c')"
    using "1.prems" by (simp add: multiply_def)
  show ?case
  proof (cases "degree > 1")
    case False
    then show ?thesis using "1.prems"
      by (subst pow_loop.simps, subst (2) pow_loop.simps) (simp add: pow_finish_def multiply_def)
  next
    case gt: True
    show ?thesis
    proof (cases "degree mod 2 = 0")
      case True
      show ?thesis
        using "1.IH"(1) [OF gt True "1.prems"(1) sq] gt True
        by (subst pow_loop.simps, subst (2) pow_loop.simps) simp
    next
      case odd: False
      show ?thesis
      proof (cases yIsOne)
        case True
        show ?thesis
          using "1.IH"(2) [OF gt odd True "1.prems"(2) sq] gt odd True
          by (subst pow_loop.simps, subst (2) pow_loop.simps) simp
      next
        case False
        show ?thesis
          using "1.IH"(3) [OF gt odd False mu sq] gt odd False
          by (subst pow_loop.simps, subst (2) pow_loop.simps) simp
      qed
    qed
  qed
qed

lemma pow_same_slots: "slots c = slots c' \<Longrightarrow> slots (pow he c d) = slots (pow he c' d)"
  unfolding pow_def by (rule pow_loop_same_slots) simp_all

lemma equality_mask_same_slots:
  assumes "slots key = slots key'" "slots query = slots query'"
  shows "slots (fst (equality_mask he pm key query g)) =
         slots (fst (equality_mask he pm key' query' g'))"
proof -
  have "slots (sub_ct he key query) = slots (sub_ct he key' query')"
    using assms by (simp add: sub_ct_def)
  then have "slots (pow he (sub_ct he key query) (pm - 1)) =
             slots (pow he (sub_ct he key' query') (pm - 1))"
    by (rule pow_same_slots)
  then show ?thesis
    by (simp add: equality_mask_def Let_def encodeEncrypt_def add_def negate_def)
qed

lemma equality_mask_prng: "snd (equality_mask he pm key query g) = Suc g"
  by (simp add: equality_mask_def Let_def encodeEncrypt_def)

lemma rot_loop_same_slots:
  assumes "0 < rot" "slots a = slots b"
  shows "\<exists>r r'. rot_loop he rot a = Some r \<and> rot_loop he rot b = Some r' \<and> slots r = slots r'"
  using assms
proof (induction "nat (int (slotCount he) - rot)" arbitrary: rot a b rule: less_induct)
  case less
  show ?case
  proof (cases "rot < int (slotCount he)")
    case False
    then have "rot_loop he rot a = Some a" "rot_loop he rot b = Some b"
      by (subst rot_loop.simps, simp)+
    then show ?thesis using less.prems(2) by simp
  next
    case True
    have m: "nat (int (slotCount he) - rot * 2) < nat (int (slotCount he) - rot)"
      using True less.prems(1) by simp
    have s: "slots (multiply he a (rotate_ct he a (- rot))) =
             slots (multiply he b (rotate_ct he b (- rot)))"
      using less.prems(2) by (simp add: multiply_def rotate_ct_def)
    have p: "0 < rot * 2" using less.prems(1) by simp
    from less.hyps [OF m p s] obtain r r' where
      "rot_loop he (rot * 2) (multiply he a (rotate_ct he a (- rot))) = Some r"
      "rot_loop he (rot * 2) (multiply he b (rotate_ct he b (- rot))) = Some r'"
      "slots r = slots r'" by blast
    moreover have "rot_loop he rot a = rot_loop he (rot * 2) (multiply he a (rotate_ct he a (- rot)))"
      using True by (subst rot_loop.simps) simp
    moreover have "rot_loop he rot b = rot_loop he (rot * 2) (multiply he b (rotate_ct he b (- rot)))"
      using True by (subst rot_loop.simps) simp
    ultimately show ?thesis by simp
  qed
qed

lemma search_entry_same_slots:
  assumes "slots query = slots query'" "slots key = slots key'" "slots capital = slots capital'"
  shows "\<exists>m m'. search_entry he pm query (key, capital) g = Some (m, Suc g) \<and>
               search_entry he pm query' (key', capital') g' = Some (m', Suc g') \<and>
               slots m = slots m'"
proof -
  obtain res g1 where e: "equality_mask he pm key query g = (res, g1)"
    by (cases "equality_mask he pm key query g")
  obtain res' g1' where e': "equality_mask he pm key' query' g' = (res', g1')"
    by (cases "equality_mask he pm key' query' g'")
  have g1: "g1 = Suc g" "g1' = Suc g'"
    using e e' equality_mask_prng [of he pm key query g] equality_mask_prng [of he pm key' query' g']
    by simp_all
  have "slots res = slots res'"
    using equality_mask_same_slots [OF assms(2,1), of he pm g g'] e e' by simp
  from rot_loop_same_slots [OF _ this, of 1 he] obtain r r' where
    r: "rot_loop he 1 res = Some r" "rot_loop he 1 res' = Some r'" "slots r = slots r'"
    by auto
  have "slots (multiply he r capital) = slots (multiply he r' capital')"
    using r(3) assms(3) by (simp add: multiply_def)
  then show ?thesis using e e' g1 r by (simp add: search_entry_def)
qed

lemma search_same_slots:
  assumes "slots query = slots query'" "slot_pairs db = slot_pairs db'"
    "map slots masks = map slots masks'"
  shows "\<exists>ms ms' g1 g1'. search he pm query db g masks = Some (ms, g1) \<and>
           search he pm query' db' g' masks' = Some (ms', g1') \<and>
           map slots ms = map slots ms'"
  using assms(2,3)
proof (induction db arbitrary: db' g g' masks masks')
  case Nil
  then show ?case by (simp add: slot_pairs_def)
next
  case (Cons pair db)
  obtain key capital where pair: "pair = (key, capital)" by (cases pair)
  from Cons.prems(1) obtain pair' db'' where db': "db' = pair' # db''"
    by (cases db') (simp_all add: slot_pairs_def)
  obtain key' capital' where pair': "pair' = (key', capital')" by (cases pair')
  have k: "slots key = slots key'" "slots capital = slots capital'"
    and rest: "slot_pairs db = slot_pairs db''"
    using Cons.prems(1) by (simp_all add: slot_pairs_def db' pair pair')
  from search_entry_same_slots [OF assms(1) k, of he pm g g'] obtain m m' where
    m: "search_entry he pm query (key, capital) g = Some (m, Suc g)"
       "search_entry he pm query' (key', capital') g' = Some (m', Suc g')"
       "slots m = slots m'" by blast
  have acc: "map slots (masks @ [m]) = map slots (masks' @ [m'])"
    using Cons.prems(2) m(3) by simp
  from Cons.IH [OF rest acc, of "Suc g" "Suc g'"] show ?case
    using m(1,2) by (simp add: db' pair pair')
qed

lemma encrypt_db_slots:
  "slot_pairs (fst (encrypt_db he db g acc)) =
     slot_pairs acc @ map (\<lambda>(k, v). (encode he (stringToAscii k), encode he (stringToAscii v))) db"
  by (induction db arbitrary: g acc)
     (simp_all add: slot_pairs_def encodeEncrypt_def case_prod_unfold)

lemma foldl_add_same_slots:
  "slots a = slots b \<Longrightarrow> map slots xs = map slots ys \<Longrightarrow>
   slots (foldl (add he) a xs) = slots (foldl (add he) b ys)"
proof (induction xs arbitrary: a b ys)
  case Nil
  then show ?case by simp
next
  case (Cons x xs)
  then obtain y ys' where ys: "ys = y # ys'" by (cases ys) simp_all
  have "slots (add he a x) = slots (add he b y)"
    using Cons.prems ys by (simp add: add_def)
  then show ?case using Cons.IH [of "add he a x" "add he b y" ys'] Cons.prems(2) ys by simp
qed

lemma report_same_slots: "slots v = slots v' \<Longrightarrow> report he v = report he v'"
  by (simp add: report_def decryptDecodeInt_def)

lemma aggregate_same_slots:
  assumes "map slots ms = map slots ms'"
  shows "(aggregate he ms = Inl IndexOutOfBounds \<and> aggregate he ms' = Inl IndexOutOfBounds) \<or>
         (\<exists>v v'. aggregate he ms = Inr v \<and> aggregate he ms' = Inr v' \<and> slots v = slots v')"
proof (cases ms)
  case Nil
  then show ?thesis using assms by (simp add: aggregate_def)
next
  case (Cons m rest)
  then obtain m' rest' where ms': "ms' = m' # rest'" using assms by (cases ms') simp_all
  have "slots (foldl (add he) m rest) = slots (foldl (add he) m' rest')"
    using assms Cons ms' by (intro foldl_add_same_slots) simp_all
  then show ?thesis using Cons ms' by (simp add: aggregate_def)
qed

lemma lookup_same_slots:
  assumes "slot_pairs edb = slot_pairs edb'"
  shows "lookup he pm edb g query_string = lookup he pm edb' g' query_string"
proof -
  obtain query g2 where q: "encodeEncrypt he g (stringToAscii query_string) = (query, g2)"
    by (cases "encodeEncrypt he g (stringToAscii query_string)")
  obtain query' g2' where q': "encodeEncrypt he g' (stringToAscii query_string) = (query', g2')"
    by (cases "encodeEncrypt he g' (stringToAscii query_string)")
  have sq: "slots query = slots query'"
    using q q' by (auto simp: encodeEncrypt_def)
  from search_same_slots [OF sq assms, of "[]" "[]" he pm g2 g2'] obtain ms ms' g3 g3' where
    s: "search he pm query edb g2 [] = Some (ms, g3)"
       "search he pm query' edb' g2' [] = Some (ms', g3')"
       "map slots ms = map slots ms'" by auto
  have l: "lookup_value he pm edb g query_string = Some (aggregate he ms)"
    using q s(1) by (simp add: lookup_value_def)
  have l': "lookup_value he pm edb' g' query_string = Some (aggregate he ms')"
    using q' s(2) by (simp add: lookup_value_def)
  from aggregate_same_slots [OF s(3), of he] show ?thesis
  proof
    assume "aggregate he ms = Inl IndexOutOfBounds \<and> aggregate he ms' = Inl IndexOutOfBounds"
    then show ?thesis using l l' by (simp add: lookup_def)
  next
    assume "\<exists>v v'. aggregate he ms = Inr v \<and> aggregate he ms' = Inr v' \<and> slots v = slots v'"
    then obtain v v' where "aggregate he ms = Inr v" "aggregate he ms' = Inr v'" "slots v = slots v'"
      by blast
    then show ?thesis using l l' report_same_slots [of v v' he] by (simp add: lookup_def)
  qed
qed

text \<open>
  Claim C9. The string that a lookup reports does not depend on the encryption
  randomness: for every query string and every encrypted database, two lookups from
  different states of the randomness source report the same string (or end in the same
  error); and so do two whole runs, which also encrypt the database afresh.
\<close>

theorem C9_lookup_deterministic:
  "lookup he plaintextModulus encrypted_country_db g query_string =
     lookup he plaintextModulus encrypted_country_db g' query_string \<and>
   run he ub g fs cin db_filename countryName debug plaintextModulus =
     run he ub g' fs cin db_filename countryName debug plaintextModulus"
proof
  show "lookup he plaintextModulus encrypted_country_db g query_string =
     lookup he plaintextModulus encrypted_country_db g' query_string"
    by (rule lookup_same_slots) simp
next
  show "run he ub g fs cin db_filename countryName debug plaintextModulus =
     run he ub g' fs cin db_filename countryName debug plaintextModulus"
  proof (cases "read_csv ub fs db_filename (int (slotCount he))")
    case (Inl e)
    then show ?thesis by (simp add: run_def)
  next
    case (Inr country_db)
    obtain edb g1 where edb: "encrypt_db he country_db g [] = (edb, g1)"
      by (cases "encrypt_db he country_db g []")
    obtain edb' g1' where edb': "encrypt_db he country_db g' [] = (edb', g1')"
      by (cases "encrypt_db he country_db g' []")
    have sp: "slot_pairs edb = slot_pairs edb'"
      using encrypt_db_slots [of he country_db g "[]"] encrypt_db_slots [of he country_db g' "[]"]
        edb edb' by simp
    show ?thesis
      using Inr edb edb' lookup_same_slots [OF sp, of he plaintextModulus g1 _ g1']
      by (simp add: run_def Let_def)
  qed
qed

text \<open>The randomness is in the ciphertexts: two encryptions of the same values differ.\<close>

lemma encodeEncrypt_randomised:
  "g \<noteq> g' \<Longrightarrow> fst (encodeEncrypt he g vals) \<noteq> fst (encodeEncrypt he g' vals)"
  by (simp add: encodeEncrypt_def)


section \<open>The lookup\<close>

lemma slots_add: "slots (add he a b) = add_slots (modulusP he) (slots a) (slots b)"
  by (simp add: add_def add_slots_def)

lemma slots_foldl_add:
  "slots (foldl (add he) a xs) = foldl (add_slots (modulusP he)) (slots a) (map slots xs)"
  by (induction xs arbitrary: a) (simp_all add: slots_add)

lemma add_slots_zero_right:
  assumes "length a = n" "\<forall>v\<in>set a. 0 \<le> v \<and> v < P"
  shows "add_slots P a (replicate n 0) = a"
  using assms by (intro nth_equalityI) (simp_all add: add_slots_def)

lemma add_slots_zero_left:
  assumes "length a = n" "\<forall>v\<in>set a. 0 \<le> v \<and> v < P"
  shows "add_slots P (replicate n 0) a = a"
  using assms by (intro nth_equalityI) (simp_all add: add_slots_def)

lemma foldl_add_slots_zeros:
  assumes "length a = n" "\<forall>v\<in>set a. 0 \<le> v \<and> v < P"
  shows "foldl (add_slots P) a (replicate m (replicate n 0)) = a"
  by (induction m) (simp_all add: add_slots_zero_right [OF assms])


lemma aggregate_unique_slots:
  assumes "length V = n" "\<forall>v\<in>set V. 0 \<le> v \<and> v < P" "0 < P"
    and "xs = replicate i (replicate n 0) @ V # replicate j (replicate n 0)"
  shows "foldl (add_slots P) (hd xs) (tl xs) = V"
proof (cases i)
  case 0
  then show ?thesis
    using assms(4) foldl_add_slots_zeros [OF assms(1,2)] by simp
next
  case (Suc i')
  have z: "length (replicate n (0::int)) = n" "\<forall>v\<in>set (replicate n (0::int)). 0 \<le> v \<and> v < P"
    using assms(3) by simp_all
  have "foldl (add_slots P) (hd xs) (tl xs) =
        foldl (add_slots P)
          (add_slots P (foldl (add_slots P) (replicate n 0) (replicate i' (replicate n 0))) V)
          (replicate j (replicate n 0))"
    using assms(4) Suc by simp
  also have "\<dots> = foldl (add_slots P) (add_slots P (replicate n 0) V) (replicate j (replicate n 0))"
    by (simp only: foldl_add_slots_zeros [OF z])
  also have "\<dots> = foldl (add_slots P) V (replicate j (replicate n 0))"
    by (simp only: add_slots_zero_left [OF assms(1,2)])
  also have "\<dots> = V" by (rule foldl_add_slots_zeros [OF assms(1,2)])
  finally show ?thesis .
qed

lemma aggregate_none_slots:
  assumes "0 < P" "xs = replicate (Suc m) (replicate n 0)"
  shows "foldl (add_slots P) (hd xs) (tl xs) = replicate n 0"
proof -
  have z: "length (replicate n (0::int)) = n" "\<forall>v\<in>set (replicate n (0::int)). 0 \<le> v \<and> v < P"
    using assms(1) by simp_all
  show ?thesis using assms(2) foldl_add_slots_zeros [OF z] by simp
qed

lemma aggregate_slots:
  assumes "ms \<noteq> []"
  shows "\<exists>v. aggregate he ms = Inr v \<and>
             slots v = foldl (add_slots (modulusP he)) (hd (map slots ms)) (tl (map slots ms))"
  using assms by (cases ms) (simp_all add: aggregate_def slots_foldl_add)

lemma valid_encodeEncrypt:
  assumes "0 < modulusP he"
  shows "valid_ct he (fst (encodeEncrypt he g vals))"
  using assms by (auto simp: valid_ct_def encodeEncrypt_def encode_def)

lemma valid_encrypt_db:
  assumes "0 < modulusP he" "\<forall>(kc, vc)\<in>set acc. valid_ct he kc \<and> valid_ct he vc"
  shows "\<forall>(kc, vc)\<in>set (fst (encrypt_db he db g acc)). valid_ct he kc \<and> valid_ct he vc"
  using assms(2)
proof (induction db arbitrary: g acc)
  case Nil
  then show ?case by simp
next
  case (Cons pair db)
  have v1: "valid_ct he \<lparr>slots = encode he (stringToAscii (fst pair)), coins = [g]\<rparr>"
    using valid_encodeEncrypt [OF assms(1), of g "stringToAscii (fst pair)"]
    by (simp add: encodeEncrypt_def)
  have v2: "valid_ct he \<lparr>slots = encode he (stringToAscii (snd pair)), coins = [Suc g]\<rparr>"
    using valid_encodeEncrypt [OF assms(1), of "Suc g" "stringToAscii (snd pair)"]
    by (simp add: encodeEncrypt_def)
  show ?case
    using Cons.IH [of "acc @ [(\<lparr>slots = encode he (stringToAscii (fst pair)), coins = [g]\<rparr>,
                      \<lparr>slots = encode he (stringToAscii (snd pair)), coins = [Suc g]\<rparr>)]" "Suc (Suc g)"]
      Cons.prems v1 v2
    by (simp add: encodeEncrypt_def)
qed

lemma search_slots:
  assumes "is_prime (modulusP he)" "slotCount he = 2 ^ k" "valid_ct he query"
    and "\<forall>(kc, vc)\<in>set edb. valid_ct he kc \<and> valid_ct he vc"
  shows "\<exists>ms g'. search he (modulusP he) query edb g acc = Some (acc @ ms, g') \<and>
           map slots ms =
             map (\<lambda>(ks, vs). if ks = slots query then vs else replicate (slotCount he) 0)
               (slot_pairs edb)"
  using assms(4)
proof (induction edb arbitrary: g acc)
  case Nil
  then show ?case by (simp add: slot_pairs_def)
next
  case (Cons pair edb)
  obtain kc vc where pair: "pair = (kc, vc)" by (cases pair)
  have v: "valid_ct he kc" "valid_ct he vc" using Cons.prems pair by simp_all
  from search_entry_slots [OF assms(1,2) v(1) assms(3) v(2), of g] obtain masked where
    m: "search_entry he (modulusP he) query (kc, vc) g = Some (masked, Suc g)"
       "slots masked = (if slots kc = slots query then slots vc else replicate (slotCount he) 0)"
    by blast
  have rest: "\<forall>(kc, vc)\<in>set edb. valid_ct he kc \<and> valid_ct he vc" using Cons.prems by simp
  from Cons.IH [OF rest, of "Suc g" "acc @ [masked]"] obtain ms g' where
    ih: "search he (modulusP he) query edb (Suc g) (acc @ [masked]) = Some ((acc @ [masked]) @ ms, g')"
        "map slots ms =
             map (\<lambda>(ks, vs). if ks = slots query then vs else replicate (slotCount he) 0)
               (slot_pairs edb)"
    by blast
  have "search he (modulusP he) query (pair # edb) g acc = Some (acc @ (masked # ms), g')"
    using m(1) ih(1) pair by simp
  moreover have "map slots (masked # ms) =
             map (\<lambda>(ks, vs). if ks = slots query then vs else replicate (slotCount he) 0)
               (slot_pairs (pair # edb))"
    using m(2) ih(2) pair by (simp add: slot_pairs_def)
  ultimately show ?case by blast
qed


lemma encode_text:
  assumes "ascii_text s" "length s \<le> slotCount he" "128 \<le> modulusP he"
  shows "encode he (stringToAscii s) = map of_char s @ replicate (slotCount he - length s) 0"
proof -
  have a: "map int_of_char s = map of_char s"
    using assms(1) by (simp add: ascii_text_def int_of_char_def)
  have b: "map (\<lambda>v. v mod modulusP he) (map of_char s) = map of_char s"
  proof (rule map_idI)
    fix v :: int assume "v \<in> set (map of_char s)"
    then have "0 < v \<and> v < 128" using assms(1) by (auto simp: ascii_text_def)
    then show "v mod modulusP he = v" using assms(3) by simp
  qed
  have "encode he (stringToAscii s) =
        map (\<lambda>v. v mod modulusP he) (map of_char s @ replicate (slotCount he - length s) 0)"
    using assms(2) by (simp add: encode_def stringToAscii_def a)
  also have "\<dots> = map of_char s @ replicate (slotCount he - length s) 0"
    using b by simp
  finally show ?thesis .
qed

lemma padded_inj:
  assumes "ascii_text s" "ascii_text t"
    and "map of_char s @ replicate a (0::int) = map of_char t @ replicate b 0"
  shows "s = t"
proof -
  have nz: "takeWhile (\<lambda>v. v \<noteq> 0) (map of_char u @ replicate m (0::int)) = map of_char u"
    if "ascii_text u" for u m
  proof -
    have "\<And>x. x \<in> set (map of_char u :: int list) \<Longrightarrow> x \<noteq> 0"
      using that by (auto simp: ascii_text_def)
    then have "takeWhile (\<lambda>v. v \<noteq> 0) (map of_char u @ replicate m (0::int)) =
               map of_char u @ takeWhile (\<lambda>v. v \<noteq> 0) (replicate m (0::int))"
      by (rule takeWhile_append2)
    then show ?thesis by (simp add: takeWhile_replicate)
  qed
  have "map of_char s = (map of_char t :: int list)"
    using arg_cong [OF assms(3), of "takeWhile (\<lambda>v. v \<noteq> 0)"] nz [OF assms(1)] nz [OF assms(2)]
    by simp
  then show ?thesis by (simp add: inj_map_eq_map [OF inj_of_char])
qed

lemma encode_text_inj:
  assumes "ascii_text s" "length s \<le> slotCount he" "ascii_text t" "length t \<le> slotCount he"
    and "128 \<le> modulusP he"
  shows "encode he (stringToAscii s) = encode he (stringToAscii t) \<longleftrightarrow> s = t"
  using padded_inj [OF assms(1,3)]
  by (auto simp: encode_text [OF assms(1,2,5)] encode_text [OF assms(3,4,5)])

lemma char_of_zero: "char_of (0::int) = CHR 0x00"
  by (simp add: char_of_def)

lemma report_zeros:
  assumes "0 < slotCount he" "slots v = replicate (slotCount he) 0"
  shows "report he v = Inr not_found_message"
  using assms by (simp add: report_def decryptDecodeInt_def Let_def char_of_zero)

lemma report_text:
  assumes "ascii_text val" "length val \<le> slotCount he" "0 < slotCount he"
    and "slots v = map of_char val @ replicate (slotCount he - length val) 0"
  shows "report he v =
           Inr (if val = [] then not_found_message
                else val @ replicate (slotCount he - length val) (CHR 0x00))"
proof (cases val)
  case Nil
  then show ?thesis using assms(3,4)
    by (simp add: report_def decryptDecodeInt_def Let_def char_of_zero)
next
  case (Cons c cs)
  have "(of_char c :: int) \<noteq> 0" using assms(1) Cons by (auto simp: ascii_text_def)
  then have "c \<noteq> CHR 0x00" by auto
  moreover have "map char_of (slots v) = val @ replicate (slotCount he - length val) (CHR 0x00)"
    by (simp add: assms(4) o_def char_of_zero)
  moreover have "slots v \<noteq> []" using assms(4) Cons by simp
  ultimately show ?thesis using Cons by (simp add: report_def decryptDecodeInt_def Let_def)
qed


lemma unique_match_split:
  assumes "(q, val) \<in> set db" "length (filter (\<lambda>(key, v). key = q) db) \<le> 1"
  shows "\<exists>pre post. db = pre @ (q, val) # post \<and>
           (\<forall>(key, v)\<in>set pre. key \<noteq> q) \<and> (\<forall>(key, v)\<in>set post. key \<noteq> q)"
proof -
  from assms(1) obtain pre post where db: "db = pre @ (q, val) # post"
    by (auto dest: split_list)
  have "length (filter (\<lambda>(key, v). key = q) pre) + 1 + length (filter (\<lambda>(key, v). key = q) post) \<le> 1"
    using assms(2) unfolding db by simp
  then have "filter (\<lambda>(key, v). key = q) pre = []" "filter (\<lambda>(key, v). key = q) post = []"
    by simp_all
  then have "(\<forall>(key, v)\<in>set pre. key \<noteq> q) \<and> (\<forall>(key, v)\<in>set post. key \<noteq> q)"
    by (auto simp: filter_empty_conv)
  with db show ?thesis by blast
qed

lemma lookup_masks:
  assumes "is_prime (modulusP he)" "128 \<le> modulusP he" "slotCount he = 2 ^ k"
    and "\<forall>(key, val)\<in>set country_db.
           ascii_text key \<and> length key \<le> slotCount he \<and>
           ascii_text val \<and> length val \<le> slotCount he"
    and "ascii_text query_string" "length query_string \<le> slotCount he"
  shows "\<exists>ms g'. search he (modulusP he) (fst (encodeEncrypt he g (stringToAscii query_string)))
                   (fst (encrypt_db he country_db g0 [])) (Suc g) [] = Some (ms, g') \<and>
           map slots ms =
             map (\<lambda>(key, val). if key = query_string then encode he (stringToAscii val)
                              else replicate (slotCount he) 0) country_db"
proof -
  let ?P = "modulusP he" and ?n = "slotCount he"
  let ?query = "fst (encodeEncrypt he g (stringToAscii query_string))"
  let ?edb = "fst (encrypt_db he country_db g0 [])"
  have P0: "0 < ?P" using assms(2) by simp
  have vq: "valid_ct he ?query" by (rule valid_encodeEncrypt [OF P0])
  have vdb: "\<forall>(kc, vc)\<in>set ?edb. valid_ct he kc \<and> valid_ct he vc"
    by (rule valid_encrypt_db [OF P0]) simp
  from search_slots [OF assms(1,3) vq vdb, of "Suc g" "[]"] obtain ms g' where
    s: "search he ?P ?query ?edb (Suc g) [] = Some (ms, g')"
       "map slots ms = map (\<lambda>(ks, vs). if ks = slots ?query then vs else replicate ?n 0) (slot_pairs ?edb)"
    by auto
  have sp: "slot_pairs ?edb =
            map (\<lambda>(k, v). (encode he (stringToAscii k), encode he (stringToAscii v))) country_db"
    using encrypt_db_slots [of he country_db g0 "[]"] by (simp add: slot_pairs_def)
  have sq: "slots ?query = encode he (stringToAscii query_string)"
    by (simp add: encodeEncrypt_def)
  have "map (\<lambda>(ks, vs). if ks = slots ?query then vs else replicate ?n 0) (slot_pairs ?edb) =
        map (\<lambda>(key, val). if key = query_string then encode he (stringToAscii val)
                              else replicate ?n 0) country_db"
    unfolding sp sq map_map
  proof (rule map_cong [OF refl])
    fix x assume x: "x \<in> set country_db"
    obtain key val where kv: "x = (key, val)" by (cases x)
    have "ascii_text key" "length key \<le> ?n" using assms(4) x kv by auto
    from encode_text_inj [OF this assms(5,6,2)]
    show "((\<lambda>(ks, vs). if ks = encode he (stringToAscii query_string) then vs else replicate ?n 0) \<circ>
           (\<lambda>(k, v). (encode he (stringToAscii k), encode he (stringToAscii v)))) x =
          (case x of (key, val) \<Rightarrow> if key = query_string then encode he (stringToAscii val)
                              else replicate ?n 0)"
      by (simp add: kv)
  qed
  with s show ?thesis by auto
qed


lemma map_no_match:
  assumes "\<forall>(key, v)\<in>set xs. key \<noteq> q"
  shows "map (\<lambda>(key, val). if key = q then f val else z) xs = replicate (length xs) z"
  using assms by (induction xs) auto

lemma lookup_value_slots:
  assumes "is_prime (modulusP he)" "128 \<le> modulusP he" "slotCount he = 2 ^ k"
    and "country_db \<noteq> []"
    and "\<forall>(key, val)\<in>set country_db.
           ascii_text key \<and> length key \<le> slotCount he \<and>
           ascii_text val \<and> length val \<le> slotCount he"
    and "ascii_text query_string" "length query_string \<le> slotCount he"
    and "length (filter (\<lambda>(key, val). key = query_string) country_db) \<le> 1"
  shows "\<exists>agg. lookup_value he (modulusP he) (fst (encrypt_db he country_db g0 [])) g query_string =
                   Some (Inr agg) \<and>
           (\<forall>val. (query_string, val) \<in> set country_db \<longrightarrow>
                  slots agg = encode he (stringToAscii val)) \<and>
           (query_string \<notin> fst ` set country_db \<longrightarrow>
                  slots agg = replicate (slotCount he) 0)"
proof -
  let ?P = "modulusP he" and ?n = "slotCount he"
  let ?Z = "replicate ?n (0::int)"
  let ?f = "\<lambda>(key, val). if key = query_string then encode he (stringToAscii val) else ?Z"
  have P0: "0 < ?P" using assms(2) by simp
  from lookup_masks [OF assms(1,2,3,5,6,7), of g g0] obtain ms g' where
    s: "search he ?P (fst (encodeEncrypt he g (stringToAscii query_string)))
          (fst (encrypt_db he country_db g0 [])) (Suc g) [] = Some (ms, g')"
       "map slots ms = map ?f country_db"
    by blast
  have "length (map slots ms) = length (map ?f country_db)" using s(2) by simp
  then have ne: "ms \<noteq> []" using assms(4) by auto
  from aggregate_slots [OF ne, of he] obtain agg where
    v: "aggregate he ms = Inr agg"
       "slots agg = foldl (add_slots ?P) (hd (map slots ms)) (tl (map slots ms))"
    by blast
  have lv: "lookup_value he ?P (fst (encrypt_db he country_db g0 [])) g query_string = Some (Inr agg)"
    using s(1) v(1) by (simp add: lookup_value_def encodeEncrypt_def)
  have found: "slots agg = encode he (stringToAscii val)"
    if "(query_string, val) \<in> set country_db" for val
  proof -
    from unique_match_split [OF that assms(8)] obtain pre post where
      db: "country_db = pre @ (query_string, val) # post"
      and pre: "\<forall>(key, v)\<in>set pre. key \<noteq> query_string"
      and post: "\<forall>(key, v)\<in>set post. key \<noteq> query_string"
      by blast
    let ?V = "encode he (stringToAscii val)"
    have xs: "map slots ms = replicate (length pre) ?Z @ ?V # replicate (length post) ?Z"
      unfolding s(2) db
      using map_no_match [OF pre, of "\<lambda>val. encode he (stringToAscii val)" ?Z]
        map_no_match [OF post, of "\<lambda>val. encode he (stringToAscii val)" ?Z]
      by simp
    have lV: "length ?V = ?n" by (simp add: encode_def)
    have rV: "\<forall>v\<in>set ?V. 0 \<le> v \<and> v < ?P" using P0 by (auto simp: encode_def)
    show ?thesis
      unfolding v(2) by (rule aggregate_unique_slots [OF lV rV P0 xs])
  qed
  have missing: "slots agg = ?Z" if "query_string \<notin> fst ` set country_db"
  proof -
    have "\<forall>(key, v)\<in>set country_db. key \<noteq> query_string" using that by force
    from map_no_match [OF this, of "\<lambda>val. encode he (stringToAscii val)" ?Z]
    have "map slots ms = replicate (length country_db) ?Z" unfolding s(2) .
    moreover obtain m where "length country_db = Suc m" using assms(4) by (cases country_db) auto
    ultimately have xs: "map slots ms = replicate (Suc m) ?Z" by simp
    show ?thesis unfolding v(2) by (rule aggregate_none_slots [OF P0 xs])
  qed
  show ?thesis using lv found missing by blast
qed

text \<open>\<^verbatim>\<open>run\<close> is the lookup of its query on the database it has read and encrypted.\<close>

lemma run_lookup:
  assumes "isModularArithmetic he"
    and "read_csv ub fs db_filename (int (slotCount he)) = Inr country_db"
    and "countryName \<noteq> []"
  shows "run he ub g fs cin db_filename countryName debug plaintextModulus =
           lookup he plaintextModulus (fst (encrypt_db he country_db g []))
             (snd (encrypt_db he country_db g [])) countryName"
  using assms by (simp add: run_def split: prod.splits)

text \<open>
  Claim C1, as the code has it. Let the plaintext modulus be a prime of at least 128 and
  the slot count \<open>n\<close> a power of two; let the database have at least one record, all
  its keys and values being texts of at most \<open>n\<close> characters, and let the query be such
  a text, equal to the key of at most one record. If a record's key equals the query,
  the lookup returns the value of that record followed by NUL characters up to \<open>n\<close>
  characters in all when the value is not empty, and the not-found message when it is
  empty. If no record's key equals the query, the aggregated ciphertext decodes to all
  zeros and the lookup returns the not-found message.
\<close>

theorem C1_lookup:
  assumes "is_prime (modulusP he)" and "128 \<le> modulusP he" and "slotCount he = 2 ^ k"
    and "country_db \<noteq> []"
    and "\<forall>(key, val)\<in>set country_db.
           ascii_text key \<and> length key \<le> slotCount he \<and>
           ascii_text val \<and> length val \<le> slotCount he"
    and "ascii_text query_string" and "length query_string \<le> slotCount he"
    and "length (filter (\<lambda>(key, val). key = query_string) country_db) \<le> 1"
    and "encrypted_country_db = fst (encrypt_db he country_db g0 [])"
  shows "(\<forall>val. (query_string, val) \<in> set country_db \<longrightarrow>
            lookup he (modulusP he) encrypted_country_db g query_string =
              Some (Inr (if val = [] then not_found_message
                         else val @ replicate (slotCount he - length val) (CHR 0x00)))) \<and>
         (query_string \<notin> fst ` set country_db \<longrightarrow>
            (\<exists>agg. lookup_value he (modulusP he) encrypted_country_db g query_string =
                       Some (Inr agg) \<and>
                     decryptDecodeInt he agg = replicate (slotCount he) 0) \<and>
            lookup he (modulusP he) encrypted_country_db g query_string =
              Some (Inr not_found_message))"
proof -
  have n0: "0 < slotCount he" using assms(3) by simp
  from lookup_value_slots [OF assms(1-8), of g0 g] obtain agg where
    lv: "lookup_value he (modulusP he) encrypted_country_db g query_string = Some (Inr agg)"
    and found: "\<And>val. (query_string, val) \<in> set country_db \<Longrightarrow>
                  slots agg = encode he (stringToAscii val)"
    and missing: "query_string \<notin> fst ` set country_db \<Longrightarrow>
                  slots agg = replicate (slotCount he) 0"
    unfolding assms(9) by blast
  have l: "lookup he (modulusP he) encrypted_country_db g query_string = Some (report he agg)"
    using lv by (simp add: lookup_def)
  have a: "lookup he (modulusP he) encrypted_country_db g query_string =
              Some (Inr (if val = [] then not_found_message
                         else val @ replicate (slotCount he - length val) (CHR 0x00)))"
    if "(query_string, val) \<in> set country_db" for val
  proof -
    have t: "ascii_text val" "length val \<le> slotCount he" using assms(5) that by auto
    have "slots agg = map of_char val @ replicate (slotCount he - length val) 0"
      using found [OF that] encode_text [OF t assms(2)] by simp
    from report_text [OF t n0 this] show ?thesis using l by simp
  qed
  have b: "(\<exists>agg. lookup_value he (modulusP he) encrypted_country_db g query_string =
                       Some (Inr agg) \<and>
                     decryptDecodeInt he agg = replicate (slotCount he) 0) \<and>
            lookup he (modulusP he) encrypted_country_db g query_string =
              Some (Inr not_found_message)"
    if "query_string \<notin> fst ` set country_db"
    using lv l missing [OF that] report_zeros [OF n0 missing [OF that]]
    by (auto simp: decryptDecodeInt_def)
  show ?thesis using a b by blast
qed

text \<open>
  On the database of the scenarios, 32 slots and the modulus 257, the query \<^verbatim>\<open>Norway\<close>
  is answered by the 32 characters \<^verbatim>\<open>Oslo\<close> and 28 NUL, not by the value \<^verbatim>\<open>Oslo\<close>;
  and a query that equals the key of a record with an empty value is answered by the
  not-found message.
\<close>

theorem C1_counterexample:
  "read_csv stale_read [''countries.csv'' \<mapsto> countries_csv] ''countries.csv'' 32 = Inr countries \<and>
   run he32 stale_read 0 [''countries.csv'' \<mapsto> countries_csv] [] ''countries.csv'' ''Norway'' False 257 =
     Some (Inr (''Oslo'' @ replicate 28 (CHR 0x00))) \<and>
   run he32 stale_read 0 [''countries.csv'' \<mapsto> countries_csv] [] ''countries.csv'' ''Norway'' False 257 \<noteq>
     Some (Inr ''Oslo'') \<and>
   read_csv stale_read [''countries.csv'' \<mapsto> empty_value_csv] ''countries.csv'' 32 = Inr [(''Utopia'', [])] \<and>
   run he32 stale_read 0 [''countries.csv'' \<mapsto> empty_value_csv] [] ''countries.csv'' ''Utopia'' False 257 =
     Some (Inr not_found_message)"
  by code_simp

theorem C1_lookup_witness:
  "is_prime (modulusP he32) \<and> 128 \<le> modulusP he32 \<and> slotCount he32 = 2 ^ 5 \<and>
   (''Norway'', ''Oslo'') \<in> set countries \<and> ''France'' \<notin> fst ` set countries \<and>
   lookup he32 (modulusP he32) (fst (encrypt_db he32 countries 0 [])) 4 ''Norway'' =
     Some (Inr (''Oslo'' @ replicate 28 (CHR 0x00))) \<and>
   lookup he32 (modulusP he32) (fst (encrypt_db he32 countries 0 [])) 4 ''France'' =
     Some (Inr not_found_message)"
proof -
  have p: "is_prime (modulusP he32)" using is_prime_257 by (simp add: he32_def)
  have m: "128 \<le> modulusP he32" by (simp add: he32_def)
  have n: "slotCount he32 = 2 ^ 5" by (simp add: he32_def)
  have ne: "countries \<noteq> []" by (simp add: countries_def)
  have t: "\<forall>(key, val)\<in>set countries.
             ascii_text key \<and> length key \<le> slotCount he32 \<and>
             ascii_text val \<and> length val \<le> slotCount he32"
    by (simp add: countries_def he32_def ascii_text_def)
  have q1: "ascii_text ''Norway''" and q2: "ascii_text ''France''"
    by (simp_all add: ascii_text_def)
  have l1: "length ''Norway'' \<le> slotCount he32" and l2: "length ''France'' \<le> slotCount he32"
    by (simp_all add: he32_def)
  have u1: "length (filter (\<lambda>(key, val). key = ''Norway'') countries) \<le> 1"
    and u2: "length (filter (\<lambda>(key, val). key = ''France'') countries) \<le> 1"
    by (simp_all add: countries_def)
  have i1: "(''Norway'', ''Oslo'') \<in> set countries" by (simp add: countries_def)
  have i2: "''France'' \<notin> fst ` set countries" by (simp add: countries_def)
  have "lookup he32 (modulusP he32) (fst (encrypt_db he32 countries 0 [])) 4 ''Norway'' =
     Some (Inr (if ''Oslo'' = [] then not_found_message
                else ''Oslo'' @ replicate (slotCount he32 - length ''Oslo'') (CHR 0x00)))"
    using C1_lookup [OF p m n ne t q1 l1 u1 refl, where g = 4 and ?g0.0 = 0] i1 by blast
  then have a: "lookup he32 (modulusP he32) (fst (encrypt_db he32 countries 0 [])) 4 ''Norway'' =
     Some (Inr (''Oslo'' @ replicate 28 (CHR 0x00)))"
    by (simp add: he32_def)
  have b: "lookup he32 (modulusP he32) (fst (encrypt_db he32 countries 0 [])) 4 ''France'' =
     Some (Inr not_found_message)"
    using C1_lookup [OF p m n ne t q2 l2 u2 refl, where g = 4 and ?g0.0 = 0] i2 by blast
  show ?thesis using p m n i1 i2 a b by blast
qed


end
